theory Spec2Isabelle
  imports Complex_Main "HOL-Library.AList" "HOL-Library.Char_ord" "HOL-Library.List_Lexorder"
begin

section \<open>Python values shared by the solver variants\<close>

text \<open>
  The exceptions the modelled functions can raise: \<open>list[i]\<close> and \<open>str[i]\<close> out of
  range raise IndexError, \<open>max\<close> of an empty sequence raises ValueError.
\<close>

datatype error = IndexError | ValueError

text \<open>
  \<open>collections.Counter(answer)\<close>: the number of occurrences of every character, and 0
  for a character that does not occur (a Counter returns 0 for a missing key).
\<close>

definition Counter :: "string \<Rightarrow> char \<Rightarrow> int" where
  "Counter s = (\<lambda>c. int (count_list s c))"

text \<open>
  A dict used as a tally is an association list in insertion order, which is the order
  Python iterates it in. \<open>d[k] = d.get(k, 0) + 1\<close>, and \<open>d[k] += 1\<close> on a
  \<open>defaultdict(int)\<close> or a \<open>Counter\<close>, keep the position of a key that is present and
  append a new key at the end.
\<close>

definition bump :: "'k \<Rightarrow> ('k \<times> int) list \<Rightarrow> ('k \<times> int) list" where
  "bump k d = AList.update k ((case map_of d k of None \<Rightarrow> 0 | Some n \<Rightarrow> n) + 1) d"

text \<open>
  \<open>sorted(d.items(), key=lambda x: x[1], reverse=True)\<close> and \<open>Counter.most_common()\<close>:
  decreasing count, items of equal count in their original order (Python's sort is
  stable, also with \<open>reverse=True\<close>).
\<close>

definition by_count_desc :: "('k \<times> int) list \<Rightarrow> ('k \<times> int) list" where
  "by_count_desc items = sort_key (\<lambda>(k, n). - n) items"

text \<open>
  Python floats. The solvers only divide two ints, take \<open>math.log2\<close>, multiply,
  subtract and compare; the arithmetic is a parameter, a record of these operations on
  a linearly ordered type of values, so that what is proved holds whatever the rounding.
\<close>

record 'f float_ops =
  f_of_int :: "int \<Rightarrow> 'f"
  f_div :: "int \<Rightarrow> int \<Rightarrow> 'f"
  f_log2 :: "'f \<Rightarrow> 'f"
  f_mul :: "'f \<Rightarrow> 'f \<Rightarrow> 'f"
  f_sub :: "'f \<Rightarrow> 'f \<Rightarrow> 'f"

text \<open>Exact arithmetic on the reals, for evaluating the solvers on concrete inputs.\<close>

definition real_ops :: "real float_ops" where
  "real_ops = \<lparr> f_of_int = real_of_int, f_div = (\<lambda>a b. real_of_int a / real_of_int b),
                f_log2 = log 2, f_mul = (*), f_sub = (-) \<rparr>"

text \<open>
  \<open>max(iterable, key=...)\<close>: ValueError on an empty sequence; otherwise the first item
  is the current best and a later item replaces it only when its key is strictly
  greater. An exception raised by the key function propagates.
\<close>

fun max_loop :: "('a \<Rightarrow> error + 'k::linorder) \<Rightarrow> 'a list \<Rightarrow> 'a \<Rightarrow> 'k \<Rightarrow> error + 'a" where
  "max_loop key [] best best_key = Inr best"
| "max_loop key (x # xs) best best_key =
     (case key x of
        Inl e \<Rightarrow> Inl e
      | Inr k \<Rightarrow> if k > best_key then max_loop key xs x k else max_loop key xs best best_key)"

definition py_max :: "('a \<Rightarrow> error + 'k::linorder) \<Rightarrow> 'a list \<Rightarrow> error + 'a" where
  "py_max key xs =
     (case xs of
        [] \<Rightarrow> Inl ValueError
      | x # rest \<Rightarrow> (case key x of Inl e \<Rightarrow> Inl e | Inr k \<Rightarrow> max_loop key rest x k))"

section \<open>guesser\_submitted.py\<close>

subsection \<open>Feedback scoring: \<open>Guesser.get_matches\<close>\<close>

text \<open>
  First loop of \<open>get_matches\<close>, over the letters of the guess, each paired with the
  answer's letter at the same position: a matching position receives the letter itself
  and decrements that letter's count, any other position receives \<open>+\<close>.
  The result is the feedback list and the counts after the loop.
\<close>

fun first_pass :: "(char \<times> char) list \<Rightarrow> (char \<Rightarrow> int) \<Rightarrow> string \<times> (char \<Rightarrow> int)" where
  "first_pass [] counts = ([], counts)"
| "first_pass ((letter, a) # rest) counts =
     (if letter = a
      then (case first_pass rest (counts(letter := counts letter - 1)) of
              (feedback, counts') \<Rightarrow> (letter # feedback, counts'))
      else (case first_pass rest counts of
              (feedback, counts') \<Rightarrow> (CHR ''+'' # feedback, counts')))"

text \<open>
  Second loop of \<open>get_matches\<close>, over the letters of the guess, each paired with the
  feedback entry the first loop left at its position: an entry that reads \<open>+\<close> becomes
  \<open>-\<close> when the letter occurs in the answer and its remaining count is positive, and the
  count is decremented.
\<close>

fun second_pass :: "string \<Rightarrow> (char \<times> char) list \<Rightarrow> (char \<Rightarrow> int) \<Rightarrow> string" where
  "second_pass answer [] counts = []"
| "second_pass answer ((letter, f) # rest) counts =
     (if f = CHR ''+'' \<and> letter \<in> set answer \<and> counts letter > 0
      then CHR ''-'' # second_pass answer rest (counts(letter := counts letter - 1))
      else f # second_pass answer rest counts)"

text \<open>
  \<open>answer[i]\<close> raises IndexError as soon as \<open>i\<close> reaches \<open>len(answer)\<close>, which happens
  exactly when the guess is longer than the answer; the function has written nothing but
  its own local variables by then. Otherwise the two loops run over all of the guess.
  The \<open>lru_cache\<close> decorator memoises a function of its arguments only and is left out.
\<close>

definition get_matches :: "string \<Rightarrow> string \<Rightarrow> error + string" where
  "get_matches guess answer =
     (if length answer < length guess then Inl IndexError
      else (case first_pass (zip guess answer) (Counter answer) of
              (feedback, counts) \<Rightarrow> Inr (second_pass answer (zip guess feedback) counts)))"

subsection \<open>\<open>pattern_distribution\<close> and \<open>entropy\<close>\<close>

fun distribution_loop ::
  "string \<Rightarrow> string list \<Rightarrow> (string \<times> int) list \<Rightarrow> error + (string \<times> int) list" where
  "distribution_loop guess [] distribution = Inr distribution"
| "distribution_loop guess (answer # rest) distribution =
     (case get_matches guess answer of
        Inl e \<Rightarrow> Inl e
      | Inr pattern \<Rightarrow> distribution_loop guess rest (bump pattern distribution))"

definition pattern_distribution :: "string \<Rightarrow> string list \<Rightarrow> error + (string \<times> int) list" where
  "pattern_distribution guess candidates_tuple = distribution_loop guess candidates_tuple []"

text \<open>
  \<open>entropy\<close> starts from the int 0 and subtracts \<open>p * log2(p)\<close> for every count of the
  distribution, in the dict's order. With no candidates the distribution is empty and
  nothing is divided by the zero total.
\<close>

definition entropy :: "'f float_ops \<Rightarrow> string \<Rightarrow> string list \<Rightarrow> error + 'f" where
  "entropy ops guess candidates =
     (let total_weight = int (length candidates) in
      case pattern_distribution guess candidates of
        Inl e \<Rightarrow> Inl e
      | Inr distribution \<Rightarrow>
          Inr (fold (\<lambda>count entropy.
                       let p = f_div ops count total_weight
                       in f_sub ops entropy (f_mul ops p (f_log2 ops p)))
                 (map snd distribution) (f_of_int ops 0)))"

subsection \<open>\<open>best_first_guess\<close>\<close>

definition known_good :: "string list" where
  "known_good = [''saren'', ''ranes'', ''saret'', ''tares'', ''earis'',
                 ''saner'', ''lares'', ''aires'', ''raise'', ''sarel'',
                 ''sarie'', ''tales'', ''crane'', ''stale'']"

definition limit :: nat where
  "limit = 100"

text \<open>
  \<open>pos_counters[i]\<close> after the counting loop: the tally of the letters the words have at
  position \<open>i\<close>, in the order the words come. The five tallies do not influence each
  other, so each is computed by its own pass over the words.
\<close>

definition pos_counter :: "nat \<Rightarrow> string list \<Rightarrow> (char \<times> int) list" where
  "pos_counter i words =
     fold (\<lambda>word counter. if i < length word then bump (word ! i) counter else counter) words []"

definition top_letters :: "string list \<Rightarrow> string list" where
  "top_letters words =
     map (\<lambda>i. map fst (take 2 (by_count_desc (pos_counter i words)))) [0..<5]"

text \<open>
  The words tried as openers: the known good ones and the first
  \<open>limit - len(potential_words)\<close> combinations of \<open>itertools.product(*top_letters)\<close>,
  here in the order they are added and without repetition.
\<close>

definition potential_words :: "string list \<Rightarrow> string list" where
  "potential_words words =
     remdups (known_good @ take (limit - length known_good) (product_lists (top_letters words)))"

fun best_entropy_loop ::
  "('f::linorder) float_ops \<Rightarrow> string list \<Rightarrow> string list \<Rightarrow> string option \<Rightarrow> 'f
     \<Rightarrow> error + string option" where
  "best_entropy_loop ops [] candidates_sample best_word best_entropy = Inr best_word"
| "best_entropy_loop ops (word # rest) candidates_sample best_word best_entropy =
     (case entropy ops word candidates_sample of
        Inl e \<Rightarrow> Inl e
      | Inr e \<Rightarrow>
          if e > best_entropy then best_entropy_loop ops rest candidates_sample (Some word) e
          else best_entropy_loop ops rest candidates_sample best_word best_entropy)"

text \<open>
  \<open>potential_words\<close> is a Python set of strings; the order in which the final loop
  visits it depends on the interpreter's string hashing and is a parameter,
  \<open>set_iter\<close>. \<open>pos_counters\<close> has five entries, so a word of more than five letters
  raises IndexError in the counting loop. The result is \<open>None\<close> when no word's entropy
  exceeds -1.
\<close>

definition best_first_guess ::
  "('f::linorder) float_ops \<Rightarrow> (string list \<Rightarrow> string list) \<Rightarrow> string list
     \<Rightarrow> error + string option" where
  "best_first_guess ops set_iter words =
     (if \<exists>word \<in> set words. 5 < length word then Inl IndexError
      else best_entropy_loop ops (set_iter (potential_words words)) words
             None (f_of_int ops (- 1)))"

subsection \<open>\<open>get_guess\<close>\<close>

text \<open>
  The fields of a \<open>Guesser\<close>. \<open>console_input\<close> is what \<open>self.console.input\<close> answers to
  a prompt, \<open>console_out\<close> what \<open>self.console.print\<close> has shown so far.
\<close>

record guesser =
  word_list :: "string list"
  manual :: string
  tried :: "string list"
  candidates :: "string list"
  last_guess :: "string option"
  best_first_word :: string
  console_input :: "string \<Rightarrow> string"
  console_out :: "string list"

text \<open>
  The list comprehension of lines 113-114: the words whose feedback for the last guess
  equals the observed result, in their order.
\<close>

fun filter_candidates :: "string \<Rightarrow> string \<Rightarrow> string list \<Rightarrow> error + string list" where
  "filter_candidates guess result [] = Inr []"
| "filter_candidates guess result (word # rest) =
     (case get_matches guess word of
        Inl e \<Rightarrow> Inl e
      | Inr pattern \<Rightarrow>
          (case filter_candidates guess result rest of
             Inl e \<Rightarrow> Inl e
           | Inr kept \<Rightarrow> Inr (if pattern = result then word # kept else kept)))"

text \<open>
  Lines 112-114: with a last guess, the candidates are narrowed by its feedback;
  before the first guess they are left as they are.
\<close>

definition narrow :: "guesser \<Rightarrow> string \<Rightarrow> error + string list" where
  "narrow s result =
     (case last_guess s of
        None \<Rightarrow> Inr (candidates s)
      | Some guess \<Rightarrow> filter_candidates guess result (candidates s))"

text \<open>
  Lines 127-128: an empty candidate list is replaced by the words of the word list
  that have not been tried.
\<close>

definition reset_if_empty :: "guesser \<Rightarrow> string list \<Rightarrow> string list" where
  "reset_if_empty s cands =
     (if cands = [] then filter (\<lambda>w. w \<notin> set (tried s)) (word_list s) else cands)"

text \<open>Lines 129-131: the candidates not yet tried, or all of them when none is left.\<close>

definition candidates_to_consider :: "string list \<Rightarrow> string list \<Rightarrow> string list" where
  "candidates_to_consider tried_words cands =
     (let untried = filter (\<lambda>w. w \<notin> set tried_words) cands
      in if untried = [] then cands else untried)"

text \<open>Lines 132-134: the candidate of greatest entropy over the current candidates.\<close>

definition best_guess ::
  "('f::linorder) float_ops \<Rightarrow> string list \<Rightarrow> string list \<Rightarrow> error + string" where
  "best_guess ops pool candidates_tuple =
     py_max (\<lambda>candidate. entropy ops candidate candidates_tuple) pool"

text \<open>The four statements that end every automatic branch of \<open>get_guess\<close>.\<close>

definition emit :: "guesser \<Rightarrow> string \<Rightarrow> string \<times> guesser" where
  "emit s guess =
     (guess, s\<lparr> tried := tried s @ [guess],
                console_out := console_out s @ [guess],
                last_guess := Some guess \<rparr>)"

text \<open>
  \<open>get_guess\<close> returns the guess and the object's new state, or the exception raised.
  In manual mode the guess is what the user types and the object is left as it is.
\<close>

definition get_guess ::
  "('f::linorder) float_ops \<Rightarrow> guesser \<Rightarrow> string \<Rightarrow> error + string \<times> guesser" where
  "get_guess ops s result =
     (if manual s = ''manual'' then Inr (console_input s (''Your guess:'' @ [CHR 0x0A]), s)
      else
        (case narrow s result of
           Inl e \<Rightarrow> Inl e
         | Inr cands \<Rightarrow>
             if tried s = [] then Inr (emit (s\<lparr>candidates := cands\<rparr>) (best_first_word s))
             else if length cands = 1 then Inr (emit (s\<lparr>candidates := cands\<rparr>) (cands ! 0))
             else
               let cands' = reset_if_empty s cands
               in (case best_guess ops (candidates_to_consider (tried s) cands') cands' of
                     Inl e \<Rightarrow> Inl e
                   | Inr guess \<Rightarrow> Inr (emit (s\<lparr>candidates := cands'\<rparr>) guess))))"

section \<open>attempts/vitto.py\<close>

subsection \<open>Feedback scoring: \<open>Guesser._get_pattern\<close>\<close>

text \<open>\<open>target_chars\<close>, a dict from character to count, built with \<open>get(char, 0) + 1\<close>.\<close>

fun count_chars :: "string \<Rightarrow> (char \<rightharpoonup> int) \<Rightarrow> (char \<rightharpoonup> int)" where
  "count_chars [] target_chars = target_chars"
| "count_chars (char # target) target_chars =
     count_chars target
       (target_chars(char \<mapsto> (case target_chars char of None \<Rightarrow> 0 | Some n \<Rightarrow> n) + 1))"

text \<open>
  \<open>target_chars[k] -= 1\<close>. Both loops apply it to a key that is present (the first to
  a letter of the target, the second after testing \<open>k in target_chars\<close>), so the KeyError
  of a missing key does not arise.
\<close>

definition decrement :: "(char \<rightharpoonup> int) \<Rightarrow> char \<Rightarrow> (char \<rightharpoonup> int)" where
  "decrement target_chars k = target_chars(k := map_option (\<lambda>n. n - 1) (target_chars k))"

text \<open>First pass: a green position stores the letter, any other stays \<open>None\<close>.\<close>

fun green_pass ::
  "(char \<times> char) list \<Rightarrow> (char \<rightharpoonup> int) \<Rightarrow> char option list \<times> (char \<rightharpoonup> int)" where
  "green_pass [] target_chars = ([], target_chars)"
| "green_pass ((g, t) # rest) target_chars =
     (if g = t
      then (case green_pass rest (decrement target_chars g) of
              (pattern_chars, target_chars') \<Rightarrow> (Some g # pattern_chars, target_chars'))
      else (case green_pass rest target_chars of
              (pattern_chars, target_chars') \<Rightarrow> (None # pattern_chars, target_chars')))"

text \<open>Second pass: every position still \<open>None\<close> becomes yellow or gray.\<close>

fun yellow_pass :: "(char \<times> char option) list \<Rightarrow> (char \<rightharpoonup> int) \<Rightarrow> string" where
  "yellow_pass [] target_chars = []"
| "yellow_pass ((g, Some ch) # rest) target_chars = ch # yellow_pass rest target_chars"
| "yellow_pass ((g, None) # rest) target_chars =
     (if (case target_chars g of None \<Rightarrow> False | Some n \<Rightarrow> n > 0)
      then CHR ''-'' # yellow_pass rest (decrement target_chars g)
      else CHR ''+'' # yellow_pass rest target_chars)"

text \<open>
  Both passes run over \<open>range(5)\<close>: a guess or a target of fewer than five characters
  raises IndexError, and characters beyond the fifth are only counted.
\<close>

definition get_pattern :: "string \<Rightarrow> string \<Rightarrow> error + string" where
  "get_pattern guess target =
     (if length guess < 5 \<or> length target < 5 then Inl IndexError
      else (case green_pass (zip (take 5 guess) (take 5 target)) (count_chars target Map.empty) of
              (pattern_chars, target_chars) \<Rightarrow>
                Inr (yellow_pass (zip (take 5 guess) pattern_chars) target_chars)))"

subsection \<open>Filtering the search space: \<open>_guess_to_colors\<close> and \<open>filter_words\<close>\<close>

text \<open>
  The dict \<open>data\<close>. \<open>yellow\<close> maps a letter to its set of positions. A set of small
  integers is visited in increasing order, and the positions are added in increasing
  order; the set is kept as the list of its elements in the order they were added.
\<close>

definition set_add :: "nat \<Rightarrow> nat list \<Rightarrow> nat list" where
  "set_add i positions = (if i \<in> set positions then positions else positions @ [i])"

record colors =
  gray :: "char list"
  yellow :: "(char \<times> nat list) list"
  green_pos :: "(nat \<times> char) list"
  required_letters :: "(char \<times> int) list"

fun colors_loop :: "nat \<Rightarrow> (char \<times> char) list \<Rightarrow> colors \<Rightarrow> colors" where
  "colors_loop i [] data = data"
| "colors_loop i ((g, p) # rest) data =
     (if p = CHR ''+'' then
        colors_loop (Suc i) rest (data\<lparr> gray := gray data @ [g] \<rparr>)
      else if p = CHR ''-'' then
        colors_loop (Suc i) rest
          (data\<lparr> yellow := AList.update g
                     (set_add i (case map_of (yellow data) g of None \<Rightarrow> [] | Some s \<Rightarrow> s))
                     (yellow data),
                  required_letters := bump g (required_letters data) \<rparr>)
      else
        colors_loop (Suc i) rest
          (data\<lparr> green_pos := AList.update i g (green_pos data),
                  required_letters := bump g (required_letters data) \<rparr>))"

definition guess_to_colors :: "string \<Rightarrow> string \<Rightarrow> colors" where
  "guess_to_colors guess pattern =
     colors_loop 0 (zip guess pattern)
       \<lparr> gray = [], yellow = [], green_pos = [], required_letters = [] \<rparr>"

text \<open>The four checks \<open>filter_words\<close> applies to a word, each \<open>True\<close> when the word passes.\<close>

definition check_required :: "(char \<times> int) list \<Rightarrow> string \<Rightarrow> bool" where
  "check_required required word =
     list_all (\<lambda>(letter, count). int (count_list word letter) \<ge> count) required"

fun check_green :: "(nat \<times> char) list \<Rightarrow> string \<Rightarrow> error + bool" where
  "check_green [] word = Inr True"
| "check_green ((pos, letter) # rest) word =
     (if length word \<le> pos then Inl IndexError
      else if word ! pos \<noteq> letter then Inr False
      else check_green rest word)"

fun check_positions :: "char \<Rightarrow> nat list \<Rightarrow> string \<Rightarrow> error + bool" where
  "check_positions letter [] word = Inr True"
| "check_positions letter (pos # rest) word =
     (if length word \<le> pos then Inl IndexError
      else if word ! pos = letter then Inr False
      else check_positions letter rest word)"

fun check_yellow :: "(char \<times> nat list) list \<Rightarrow> string \<Rightarrow> error + bool" where
  "check_yellow [] word = Inr True"
| "check_yellow ((letter, positions) # rest) word =
     (case check_positions letter positions word of
        Inl e \<Rightarrow> Inl e
      | Inr ok \<Rightarrow> if ok then check_yellow rest word else Inr False)"

fun check_gray :: "char list \<Rightarrow> (char \<times> int) list \<Rightarrow> string \<Rightarrow> bool" where
  "check_gray [] required word = True"
| "check_gray (letter # rest) required word =
     (case map_of required letter of
        Some count \<Rightarrow>
          if int (count_list word letter) > count then False else check_gray rest required word
      | None \<Rightarrow>
          if letter \<in> set word then False else check_gray rest required word)"

definition is_valid :: "colors \<Rightarrow> string \<Rightarrow> error + bool" where
  "is_valid data word =
     (if \<not> check_required (required_letters data) word then Inr False
      else (case check_green (green_pos data) word of
              Inl e \<Rightarrow> Inl e
            | Inr green_ok \<Rightarrow>
                if \<not> green_ok then Inr False
                else (case check_yellow (yellow data) word of
                        Inl e \<Rightarrow> Inl e
                      | Inr yellow_ok \<Rightarrow>
                          if \<not> yellow_ok then Inr False
                          else Inr (check_gray (gray data) (required_letters data) word))))"

fun filter_loop :: "colors \<Rightarrow> string list \<Rightarrow> error + string list" where
  "filter_loop data [] = Inr []"
| "filter_loop data (word # rest) =
     (case is_valid data word of
        Inl e \<Rightarrow> Inl e
      | Inr ok \<Rightarrow>
          (case filter_loop data rest of
             Inl e \<Rightarrow> Inl e
           | Inr filtered \<Rightarrow> Inr (if ok then word # filtered else filtered)))"

text \<open>\<open>filter_words\<close>: the new value of \<open>self._search_space\<close>.\<close>

definition filter_words :: "string \<Rightarrow> string \<Rightarrow> string list \<Rightarrow> error + string list" where
  "filter_words guess pattern search_space =
     filter_loop (guess_to_colors guess pattern) search_space"

subsection \<open>\<open>is_fully_disambiguating\<close>\<close>

fun disambiguating_loop :: "string \<Rightarrow> string list \<Rightarrow> string set \<Rightarrow> error + bool" where
  "disambiguating_loop guess [] patterns = Inr True"
| "disambiguating_loop guess (word # rest) patterns =
     (case get_pattern guess word of
        Inl e \<Rightarrow> Inl e
      | Inr pattern \<Rightarrow>
          if pattern \<in> patterns then Inr False
          else disambiguating_loop guess rest (insert pattern patterns))"

definition is_fully_disambiguating :: "string \<Rightarrow> string list \<Rightarrow> error + bool" where
  "is_fully_disambiguating guess possible_words = disambiguating_loop guess possible_words {}"

subsection \<open>\<open>_get_best_guess\<close>\<close>

text \<open>
  The fields \<open>_get_best_guess\<close> reads and writes. \<open>best_first_guess\<close> is \<open>None\<close> when
  \<open>_find_first_guess\<close> found no word of five distinct letters.
\<close>

record vitto_guesser =
  v_tried :: "string list"
  v_search_space :: "string list"
  v_best_first_guess :: "string option"

text \<open>
  \<open>_get_best_guess\<close> returns the guess (\<open>None\<close> for Python's \<open>None\<close>) and the new state.
  Lines 100-110, reached only when more than two words remain (the search for a
  disambiguating word and the entropy ranking), are the parameter \<open>beyond_two\<close>, a
  function of the filtered search space.
\<close>

definition get_best_guess ::
  "(string list \<Rightarrow> error + string option) \<Rightarrow> vitto_guesser \<Rightarrow> string
     \<Rightarrow> error + string option \<times> vitto_guesser" where
  "get_best_guess beyond_two s result =
     (if v_tried s = [] then Inr (v_best_first_guess s, s)
      else
        (case filter_words (last (v_tried s)) result (v_search_space s) of
           Inl e \<Rightarrow> Inl e
         | Inr space \<Rightarrow>
             let s' = s\<lparr>v_search_space := space\<rparr>; n_remaining = length space
             in if n_remaining = 0 then Inr (Some ''zzzzz'', s')
                else if n_remaining \<le> 2 then Inr (Some (space ! 0), s')
                else (case beyond_two space of
                        Inl e \<Rightarrow> Inl e
                      | Inr guess \<Rightarrow> Inr (guess, s'))))"

section \<open>guesser\_general.py\<close>

subsection \<open>\<open>try_dummy_guess\<close>\<close>

definition DUMMY_GUESS_TOGGLE :: bool where
  "DUMMY_GUESS_TOGGLE = True"

definition DUMMY_PLUS_COUNTS :: "nat list" where
  "DUMMY_PLUS_COUNTS = [1, 2]"

definition DUMMY_GUESS_ONE_PER_CASE :: bool where
  "DUMMY_GUESS_ONE_PER_CASE = True"

text \<open>The fields \<open>try_dummy_guess\<close> reads and writes.\<close>

record general_guesser =
  g_tried :: "string list"
  used_dummy :: "string set"

text \<open>\<open>result.index('+')\<close>, called only when \<open>result\<close> contains a \<open>+\<close>.\<close>

definition index_plus :: "string \<Rightarrow> nat" where
  "index_plus result = length (takeWhile (\<lambda>c. c \<noteq> CHR ''+'') result)"

text \<open>
  \<open>try_dummy_guess\<close> returns the dummy guess (\<open>None\<close> for Python's \<open>None\<close>) and the new
  state. \<open>word[pos]\<close> raises IndexError for a candidate of at most \<open>pos\<close> letters.
\<close>

definition try_dummy_guess ::
  "general_guesser \<Rightarrow> string list \<Rightarrow> string \<Rightarrow> error + string option \<times> general_guesser" where
  "try_dummy_guess s cands result =
     (if \<not> DUMMY_GUESS_TOGGLE then Inr (None, s)
      else
        let plus_count = count_list result CHR ''+'' in
        if plus_count \<in> set DUMMY_PLUS_COUNTS \<and> count_list result CHR ''-'' = 0
           \<and> length (g_tried s) < 5
        then
          if DUMMY_GUESS_ONE_PER_CASE \<and> result \<in> used_dummy s then Inr (None, s)
          else
            let s' = (if DUMMY_GUESS_ONE_PER_CASE
                      then s\<lparr>used_dummy := insert result (used_dummy s)\<rparr> else s);
                pos = index_plus result
            in if \<exists>word \<in> set cands. length word \<le> pos then Inl IndexError
               else
                 let letters = map (\<lambda>word. word ! pos) cands in
                 if card (set letters) < 3 then Inr (None, s')
                 else
                   let letter_freq = fold bump letters [];
                       dummy_letters = map fst (by_count_desc letter_freq)
                   in Inr (Some (if length dummy_letters < 5
                                 then dummy_letters @ replicate (5 - length dummy_letters) CHR ''a''
                                 else if length dummy_letters > 5 then take 5 dummy_letters
                                 else dummy_letters),
                           s')
        else Inr (None, s))"

section \<open>Properties of the scorers\<close>

subsection \<open>The two loops of \<open>get_matches\<close>\<close>

lemma first_pass_feedback:
  "fst (first_pass ps c) = map (\<lambda>(l, a). if l = a then l else CHR ''+'') ps"
proof (induction ps arbitrary: c)
  case Nil
  show ?case by simp
next
  case (Cons p ps)
  then show ?case by (cases p) (simp add: case_prod_unfold)
qed

lemma first_pass_counts:
  "snd (first_pass ps c) x = c x - int (length (filter (\<lambda>(l, a). l = a \<and> l = x) ps))"
proof (induction ps arbitrary: c)
  case Nil
  show ?case by simp
next
  case (Cons p ps)
  then show ?case by (cases p) (simp add: case_prod_unfold)
qed

lemma zip_map_zip:
  "length g \<le> length a \<Longrightarrow>
   zip g (map (\<lambda>(l, a). h l a) (zip g a)) = map (\<lambda>(l, a). (l, h l a)) (zip g a)"
  by (induction g a rule: list_induct2') auto

text \<open>
  With the guess no longer than the answer, \<open>get_matches\<close> is the second loop run on
  the marks and the counts the first loop leaves.
\<close>

lemma get_matches_unfold:
  assumes len: "length guess \<le> length answer"
  shows "get_matches guess answer =
     Inr (second_pass answer
            (map (\<lambda>(l, a). (l, if l = a then l else CHR ''+'')) (zip guess answer))
            (\<lambda>x. int (count_list answer x)
                  - int (length (filter (\<lambda>(l, a). l = a \<and> l = x) (zip guess answer)))))"
proof -
  obtain fb cs where fp: "first_pass (zip guess answer) (Counter answer) = (fb, cs)"
    by (cases "first_pass (zip guess answer) (Counter answer)")
  have fb: "fb = map (\<lambda>(l, a). if l = a then l else CHR ''+'') (zip guess answer)"
    using first_pass_feedback [of "zip guess answer" "Counter answer"] fp by simp
  have cs: "cs = (\<lambda>x. int (count_list answer x)
                  - int (length (filter (\<lambda>(l, a). l = a \<and> l = x) (zip guess answer))))"
    using first_pass_counts [of "zip guess answer" "Counter answer"] fp
    by (auto simp: Counter_def)
  have z: "zip guess fb = map (\<lambda>(l, a). (l, if l = a then l else CHR ''+'')) (zip guess answer)"
    unfolding fb using zip_map_zip [OF len, of "\<lambda>l a. if l = a then l else CHR ''+''"] by simp
  show ?thesis
    using len by (simp add: get_matches_def fp z cs)
qed

lemma second_pass_length: "length (second_pass ans qs c) = length qs"
proof (induction qs arbitrary: c)
  case Nil
  show ?case by simp
next
  case (Cons q qs)
  then show ?case by (cases q) simp
qed

lemma second_pass_marks:
  "list_all2 (\<lambda>(l, a) r. (l = a \<and> l \<noteq> CHR ''+'' \<longrightarrow> r = l) \<and>
                          (l \<noteq> a \<longrightarrow> r = CHR ''+'' \<or> r = CHR ''-''))
     ps (second_pass ans (map (\<lambda>(l, a). (l, if l = a then l else CHR ''+'')) ps) c)"
proof (induction ps arbitrary: c)
  case Nil
  show ?case by simp
next
  case (Cons p ps)
  then show ?case by (cases p) simp
qed

lemma second_pass_no_credit:
  "\<forall>y. c y \<le> 0 \<Longrightarrow> second_pass ans qs c = map snd qs"
proof (induction qs)
  case Nil
  show ?case by simp
next
  case (Cons q qs)
  then show ?case by (cases q) (simp add: not_less [symmetric])
qed

text \<open>
  The letters credited by the second loop: for a letter \<open>x\<close>, the positions of the guess
  holding \<open>x\<close> that end up marked are the matching ones, plus as many of the others as
  the remaining count of \<open>x\<close> allows.
\<close>

lemma second_pass_credit:
  assumes "\<forall>(l, a) \<in> set ps. l \<noteq> CHR ''+''"
    and "\<forall>y. 0 < c y \<longrightarrow> y \<in> set ans"
  shows "length (filter (\<lambda>(l, r). l = x \<and> r \<noteq> CHR ''+'')
           (zip (map fst ps)
              (second_pass ans (map (\<lambda>(l, a). (l, if l = a then l else CHR ''+'')) ps) c)))
         = length (filter (\<lambda>(l, a). l = a \<and> l = x) ps)
           + min (length (filter (\<lambda>(l, a). l \<noteq> a \<and> l = x) ps)) (nat (c x))"
  using assms
proof (induction ps arbitrary: c)
  case Nil
  show ?case by simp
next
  case (Cons p ps)
  obtain l a where p: "p = (l, a)" by (cases p)
  have l: "l \<noteq> CHR ''+''" using Cons.prems(1) p by simp
  have rest: "\<forall>(l, a) \<in> set ps. l \<noteq> CHR ''+''" using Cons.prems(1) by simp
  show ?case
  proof (cases "l = a")
    case True
    then show ?thesis
      using Cons.IH [OF rest Cons.prems(2)] l p by simp
  next
    case ne: False
    show ?thesis
    proof (cases "l \<in> set ans \<and> 0 < c l")
      case True
      have dec: "\<forall>y. 0 < (c(l := c l - 1)) y \<longrightarrow> y \<in> set ans"
        using Cons.prems(2) True by simp
      define R where "R = length (filter (\<lambda>(l, r). l = x \<and> r \<noteq> CHR ''+'')
           (zip (map fst ps)
              (second_pass ans (map (\<lambda>(l, a). (l, if l = a then l else CHR ''+'')) ps)
                 (c(l := c l - 1)))))"
      define M where "M = length (filter (\<lambda>(l, a). l = a \<and> l = x) ps)"
      define U where "U = length (filter (\<lambda>(l, a). l \<noteq> a \<and> l = x) ps)"
      have ih: "R = M + min U (nat ((c(l := c l - 1)) x))"
        unfolding R_def M_def U_def by (rule Cons.IH [OF rest dec])
      have lhs: "length (filter (\<lambda>(l, r). l = x \<and> r \<noteq> CHR ''+'')
           (zip (map fst (p # ps))
              (second_pass ans (map (\<lambda>(l, a). (l, if l = a then l else CHR ''+'')) (p # ps)) c)))
           = (if l = x then 1 else 0) + R"
        unfolding R_def using ne True p by simp
      have rhs: "length (filter (\<lambda>(l, a). l = a \<and> l = x) (p # ps))
           + min (length (filter (\<lambda>(l, a). l \<noteq> a \<and> l = x) (p # ps))) (nat (c x))
           = M + min ((if l = x then 1 else 0) + U) (nat (c x))"
        unfolding M_def U_def using ne p by simp
      have "(if l = x then 1 else 0) + (M + min U (nat ((c(l := c l - 1)) x)))
            = M + min ((if l = x then 1 else 0) + U) (nat (c x))"
        using True by (cases "l = x") auto
      then show ?thesis
        unfolding lhs rhs ih .
    next
      case False
      then have "c l \<le> 0" using Cons.prems(2) by force
      then show ?thesis
        using Cons.IH [OF rest Cons.prems(2)] ne False p by auto
    qed
  qed
qed

lemma matches_le_count:
  "length (filter (\<lambda>(l, a). l = a \<and> l = x) (zip g a)) \<le> count_list a x"
  by (induction g a rule: list_induct2') auto

lemma matches_plus_misses:
  "length g \<le> length a \<Longrightarrow>
   length (filter (\<lambda>(l, a). l = a \<and> l = x) (zip g a))
     + length (filter (\<lambda>(l, a). l \<noteq> a \<and> l = x) (zip g a)) = count_list g x"
  by (induction g a rule: list_induct2') auto

lemma credited_plus_absent:
  "length g = length fb \<Longrightarrow>
   length (filter (\<lambda>(l, f). l = c \<and> f \<noteq> CHR ''+'') (zip g fb))
     + length (filter (\<lambda>(l, f). l = c \<and> f = CHR ''+'') (zip g fb)) = count_list g c"
  by (induction g fb rule: list_induct2) auto

lemma positive_count_in_answer:
  "\<forall>y. 0 < int (count_list a y) - int (length (filter (\<lambda>(l, a). l = a \<and> l = y) ps))
        \<longrightarrow> y \<in> set a"
proof (intro allI impI)
  fix y
  assume "0 < int (count_list a y) - int (length (filter (\<lambda>(l, a). l = a \<and> l = y) ps))"
  then have "0 < count_list a y" by simp
  then show "y \<in> set a" using count_list_0_iff [of a y] by auto
qed

lemma get_matches_shape:
  assumes len: "length g \<le> length a" and res: "get_matches g a = Inr fb"
  shows "length fb = length g"
    and "list_all2 (\<lambda>(l, a) r. (l = a \<and> l \<noteq> CHR ''+'' \<longrightarrow> r = l) \<and>
                          (l \<noteq> a \<longrightarrow> r = CHR ''+'' \<or> r = CHR ''-'')) (zip g a) fb"
proof -
  have fb: "fb = second_pass a
            (map (\<lambda>(l, a). (l, if l = a then l else CHR ''+'')) (zip g a))
            (\<lambda>x. int (count_list a x)
                  - int (length (filter (\<lambda>(l, a). l = a \<and> l = x) (zip g a))))"
    using res get_matches_unfold [OF len] by simp
  show "length fb = length g"
    using len by (simp add: fb second_pass_length)
  show "list_all2 (\<lambda>(l, a) r. (l = a \<and> l \<noteq> CHR ''+'' \<longrightarrow> r = l) \<and>
                          (l \<noteq> a \<longrightarrow> r = CHR ''+'' \<or> r = CHR ''-'')) (zip g a) fb"
    unfolding fb by (rule second_pass_marks)
qed

text \<open>
  The number of occurrences of a letter in the guess that are not marked \<open>+\<close> is the
  smaller of its multiplicities in the guess and in the answer.
\<close>

lemma get_matches_credit:
  assumes len: "length g \<le> length a" and plus: "CHR ''+'' \<notin> set g"
    and res: "get_matches g a = Inr fb"
  shows "length (filter (\<lambda>(l, f). l = x \<and> f \<noteq> CHR ''+'') (zip g fb))
         = min (count_list g x) (count_list a x)"
proof -
  define ps where "ps = zip g a"
  define c where "c = (\<lambda>x. int (count_list a x)
                  - int (length (filter (\<lambda>(l, a). l = a \<and> l = x) ps)))"
  have fb: "fb = second_pass a (map (\<lambda>(l, a). (l, if l = a then l else CHR ''+'')) ps) c"
    using res get_matches_unfold [OF len] by (simp add: ps_def c_def)
  have g: "map fst ps = g"
    using len by (simp add: ps_def map_fst_zip_take min_def)
  have noplus: "\<forall>(l, a) \<in> set ps. l \<noteq> CHR ''+''"
    using plus by (auto simp: ps_def dest: set_zip_leftD)
  have pos: "\<forall>y. 0 < c y \<longrightarrow> y \<in> set a"
    unfolding c_def by (rule positive_count_in_answer)
  have M: "length (filter (\<lambda>(l, a). l = a \<and> l = x) ps) \<le> count_list a x"
    unfolding ps_def by (rule matches_le_count)
  have MU: "length (filter (\<lambda>(l, a). l = a \<and> l = x) ps)
     + length (filter (\<lambda>(l, a). l \<noteq> a \<and> l = x) ps) = count_list g x"
    unfolding ps_def by (rule matches_plus_misses [OF len])
  have cx: "nat (c x) = count_list a x - length (filter (\<lambda>(l, a). l = a \<and> l = x) ps)"
    using M by (simp add: c_def)
  have "length (filter (\<lambda>(l, f). l = x \<and> f \<noteq> CHR ''+'') (zip (map fst ps) fb))
         = length (filter (\<lambda>(l, a). l = a \<and> l = x) ps)
           + min (length (filter (\<lambda>(l, a). l \<noteq> a \<and> l = x) ps)) (nat (c x))"
    unfolding fb by (rule second_pass_credit [OF noplus pos])
  then show ?thesis
    using M MU unfolding g cx by linarith
qed

lemma get_matches_same: "get_matches w w = Inr w"
proof -
  have z: "\<forall>y. int (count_list w y)
                  - int (length (filter (\<lambda>(l, a). l = a \<and> l = y) (zip w w))) \<le> 0"
  proof
    fix y
    have "length (filter (\<lambda>(l, a). l = a \<and> l = y) (zip w w)) = count_list w y"
      by (induction w) auto
    then show "int (count_list w y)
                  - int (length (filter (\<lambda>(l, a). l = a \<and> l = y) (zip w w))) \<le> 0"
      by simp
  qed
  have "map snd (map (\<lambda>(l, a). (l, if l = a then l else CHR ''+'')) (zip w w)) = w"
    by (induction w) auto
  then show ?thesis
    using get_matches_unfold [of w w] second_pass_no_credit [OF z] by simp
qed

subsection \<open>\<open>_get_pattern\<close> computes the same feedback as \<open>get_matches\<close>\<close>

lemma count_chars_eq:
  "count_chars t m x =
     (if x \<in> set t \<or> x \<in> dom m
      then Some ((case m x of None \<Rightarrow> 0 | Some n \<Rightarrow> n) + int (count_list t x)) else None)"
  by (induction t arbitrary: m) (auto split: option.splits)

lemma green_pass_pattern:
  "fst (green_pass ps tc) = map (\<lambda>(g, t). if g = t then Some g else None) ps"
proof (induction ps arbitrary: tc)
  case Nil
  show ?case by simp
next
  case (Cons p ps)
  then show ?case by (cases p) (simp add: case_prod_unfold)
qed

lemma green_pass_counts:
  "snd (green_pass ps tc) x =
     map_option (\<lambda>n. n - int (length (filter (\<lambda>(g, t). g = t \<and> g = x) ps))) (tc x)"
proof (induction ps arbitrary: tc)
  case Nil
  show ?case by (simp add: option.map_ident)
next
  case (Cons p ps)
  then show ?case
    by (cases p) (auto simp: case_prod_unfold decrement_def option.map_comp comp_def
                       intro!: option.map_cong)
qed

lemma yellow_pass_second_pass:
  assumes "\<forall>(l, a) \<in> set ps. l \<noteq> CHR ''+''"
    and "\<forall>y. 0 < c y \<longrightarrow> y \<in> set ans"
    and "\<forall>y. case tc y of None \<Rightarrow> c y \<le> 0 | Some n \<Rightarrow> n = c y"
  shows "yellow_pass (map (\<lambda>(g, t). (g, if g = t then Some g else None)) ps) tc
         = second_pass ans (map (\<lambda>(l, a). (l, if l = a then l else CHR ''+'')) ps) c"
  using assms
proof (induction ps arbitrary: c tc)
  case Nil
  show ?case by simp
next
  case (Cons p ps)
  obtain l a where p: "p = (l, a)" by (cases p)
  have l: "l \<noteq> CHR ''+''" using Cons.prems(1) p by simp
  have rest: "\<forall>(l, a) \<in> set ps. l \<noteq> CHR ''+''" using Cons.prems(1) by simp
  show ?case
  proof (cases "l = a")
    case True
    then show ?thesis
      using Cons.IH [OF rest Cons.prems(2) Cons.prems(3)] l p by simp
  next
    case ne: False
    have rel: "case tc l of None \<Rightarrow> c l \<le> 0 | Some n \<Rightarrow> n = c l"
      using Cons.prems(3) by blast
    show ?thesis
    proof (cases "0 < c l")
      case True
      then have inans: "l \<in> set ans" using Cons.prems(2) by blast
      have tcl: "tc l = Some (c l)" using rel True by (cases "tc l") auto
      have dec: "\<forall>y. 0 < (c(l := c l - 1)) y \<longrightarrow> y \<in> set ans"
        using Cons.prems(2) True by simp
      have rel': "\<forall>y. case (decrement tc l) y of None \<Rightarrow> (c(l := c l - 1)) y \<le> 0
                        | Some n \<Rightarrow> n = (c(l := c l - 1)) y"
      proof
        fix y
        have "case tc y of None \<Rightarrow> c y \<le> 0 | Some n \<Rightarrow> n = c y"
          using Cons.prems(3) by blast
        then show "case (decrement tc l) y of None \<Rightarrow> (c(l := c l - 1)) y \<le> 0
                        | Some n \<Rightarrow> n = (c(l := c l - 1)) y"
          using tcl by (cases "y = l") (auto simp: decrement_def split: option.splits)
      qed
      note ih = Cons.IH [OF rest dec rel']
      show ?thesis
        using ne True inans tcl by (simp add: p ih fun_upd_def)
    next
      case False
      then have "\<not> (case tc l of None \<Rightarrow> False | Some n \<Rightarrow> n > 0)"
        using rel by (cases "tc l") auto
      then show ?thesis
        using Cons.IH [OF rest Cons.prems(2) Cons.prems(3)] ne False p by simp
    qed
  qed
qed

lemma get_pattern_eq_get_matches:
  assumes g5: "length g = 5" and a5: "length a = 5" and plus: "CHR ''+'' \<notin> set g"
  shows "get_pattern g a = get_matches g a"
proof -
  define ps where "ps = zip g a"
  define c where "c = (\<lambda>x. int (count_list a x)
                  - int (length (filter (\<lambda>(l, a). l = a \<and> l = x) ps)))"
  obtain pc tc where gp: "green_pass ps (count_chars a Map.empty) = (pc, tc)"
    by (cases "green_pass ps (count_chars a Map.empty)")
  have pc: "pc = map (\<lambda>(g, t). if g = t then Some g else None) ps"
    using green_pass_pattern [of ps "count_chars a Map.empty"] gp by simp
  have tc: "tc x = map_option (\<lambda>n. n - int (length (filter (\<lambda>(g, t). g = t \<and> g = x) ps)))
                     (count_chars a Map.empty x)" for x
    using green_pass_counts [of ps "count_chars a Map.empty" x] gp by simp
  have z: "zip g pc = map (\<lambda>(g, t). (g, if g = t then Some g else None)) ps"
    unfolding pc ps_def
    using zip_map_zip [of g a "\<lambda>g t. if g = t then Some g else None"] g5 a5 by simp
  have lhs: "get_pattern g a
       = Inr (yellow_pass (map (\<lambda>(g, t). (g, if g = t then Some g else None)) ps) tc)"
    using g5 a5 gp by (simp add: get_pattern_def ps_def [symmetric] z)
  have rhs: "get_matches g a
       = Inr (second_pass a (map (\<lambda>(l, a). (l, if l = a then l else CHR ''+'')) ps) c)"
    using get_matches_unfold [of g a] g5 a5 by (simp add: ps_def c_def)
  have noplus: "\<forall>(l, a) \<in> set ps. l \<noteq> CHR ''+''"
    using plus by (auto simp: ps_def dest: set_zip_leftD)
  have pos: "\<forall>y. 0 < c y \<longrightarrow> y \<in> set a"
    unfolding c_def by (rule positive_count_in_answer)
  have rel: "\<forall>y. case tc y of None \<Rightarrow> c y \<le> 0 | Some n \<Rightarrow> n = c y"
  proof
    fix y
    show "case tc y of None \<Rightarrow> c y \<le> 0 | Some n \<Rightarrow> n = c y"
    proof (cases "y \<in> set a")
      case True
      then show ?thesis by (simp add: tc count_chars_eq c_def)
    next
      case False
      then have "count_list a y = 0" by simp
      then show ?thesis using False by (simp add: tc count_chars_eq c_def)
    qed
  qed
  show ?thesis
    unfolding lhs rhs using yellow_pass_second_pass [OF noplus pos rel] by simp
qed

subsection \<open>Marks of the two-pass scorer\<close>

text \<open>
  C1. For a guess \<open>g\<close> and an answer \<open>a\<close> of five letters each (a word has no \<open>+\<close> and no
  \<open>-\<close>), \<open>get_matches\<close> and \<open>_get_pattern\<close> return the same feedback \<open>fb\<close> of length five;
  \<open>fb\<close> shows the guess's own letter exactly at the positions where guess and answer
  agree, and \<open>-\<close> or \<open>+\<close> elsewhere; for every letter \<open>c\<close> the occurrences of \<open>c\<close> in the
  guess marked with the letter or with \<open>-\<close> number at most the multiplicity of \<open>c\<close> in the
  answer; and when \<open>c\<close> occurs more often in the guess than in the answer, exactly as
  many occurrences as the answer has are so marked and all the others are marked \<open>+\<close>.
\<close>

theorem get_matches_marks:
  assumes g5: "length g = 5" and a5: "length a = 5"
    and plus: "CHR ''+'' \<notin> set g" and minus: "CHR ''-'' \<notin> set g"
  shows "\<exists>fb. get_matches g a = Inr fb \<and> get_pattern g a = Inr fb \<and> length fb = 5 \<and>
     (\<forall>i<5. (fb ! i = g ! i) = (g ! i = a ! i)) \<and>
     (\<forall>i<5. g ! i \<noteq> a ! i \<longrightarrow> fb ! i = CHR ''-'' \<or> fb ! i = CHR ''+'') \<and>
     (\<forall>c. length (filter (\<lambda>(l, f). l = c \<and> (f = c \<or> f = CHR ''-'')) (zip g fb))
            \<le> count_list a c) \<and>
     (\<forall>c. count_list a c < count_list g c \<longrightarrow>
          length (filter (\<lambda>(l, f). l = c \<and> (f = c \<or> f = CHR ''-'')) (zip g fb))
            = count_list a c \<and>
          length (filter (\<lambda>(l, f). l = c \<and> f = CHR ''+'') (zip g fb))
            = count_list g c - count_list a c)"
proof -
  have len: "length g \<le> length a" using g5 a5 by simp
  obtain fb where res: "get_matches g a = Inr fb"
    using get_matches_unfold [OF len] by blast
  have lfb: "length fb = 5"
    using get_matches_shape(1) [OF len res] g5 by simp
  note marks = get_matches_shape(2) [OF len res]
  have nth: "(g ! i = a ! i \<longrightarrow> fb ! i = g ! i) \<and>
             (g ! i \<noteq> a ! i \<longrightarrow> fb ! i = CHR ''+'' \<or> fb ! i = CHR ''-'')" if i: "i < 5" for i
  proof -
    have "g ! i \<in> set g" using i g5 by simp
    then have "g ! i \<noteq> CHR ''+''" using plus by metis
    moreover have zi: "zip g a ! i = (g ! i, a ! i)" and li: "i < length (zip g a)"
      using i g5 a5 by simp_all
    moreover have "(g ! i = a ! i \<and> g ! i \<noteq> CHR ''+'' \<longrightarrow> fb ! i = g ! i) \<and>
                (g ! i \<noteq> a ! i \<longrightarrow> fb ! i = CHR ''+'' \<or> fb ! i = CHR ''-'')"
      using list_all2_nthD [OF marks li] unfolding zi prod.case .
    ultimately show ?thesis by blast
  qed
  have exact: "\<forall>i<5. (fb ! i = g ! i) = (g ! i = a ! i)"
  proof (intro allI impI)
    fix i :: nat assume i: "i < 5"
    have "g ! i \<in> set g" using i g5 by simp
    then have "g ! i \<noteq> CHR ''+''" "g ! i \<noteq> CHR ''-''" using plus minus by metis+
    then show "(fb ! i = g ! i) = (g ! i = a ! i)" using nth [OF i] by metis
  qed
  have other: "\<forall>i<5. g ! i \<noteq> a ! i \<longrightarrow> fb ! i = CHR ''-'' \<or> fb ! i = CHR ''+''"
    using nth by blast
  have pairs: "f = l \<or> f = CHR ''+'' \<or> f = CHR ''-''" if "(l, f) \<in> set (zip g fb)" for l f
  proof -
    from that obtain i where i: "g ! i = l" "fb ! i = f" "i < length g"
      unfolding in_set_zip by auto
    then have "i < 5" using g5 by simp
    then show ?thesis using nth [of i] i by metis
  qed
  have conv: "filter (\<lambda>(l, f). l = c \<and> (f = c \<or> f = CHR ''-'')) (zip g fb)
            = filter (\<lambda>(l, f). l = c \<and> f \<noteq> CHR ''+'') (zip g fb)" for c
  proof (rule filter_cong [OF refl])
    fix p assume p: "p \<in> set (zip g fb)"
    obtain l f where lf: "p = (l, f)" by (cases p)
    have "l \<in> set g" using p lf by (auto dest: set_zip_leftD)
    then have "l \<noteq> CHR ''+''" using plus by metis
    then show "(case p of (l, f) \<Rightarrow> l = c \<and> (f = c \<or> f = CHR ''-''))
             = (case p of (l, f) \<Rightarrow> l = c \<and> f \<noteq> CHR ''+'')"
      using pairs [of l f] p lf by auto
  qed
  have credit: "length (filter (\<lambda>(l, f). l = c \<and> (f = c \<or> f = CHR ''-'')) (zip g fb))
         = min (count_list g c) (count_list a c)" for c
    unfolding conv by (rule get_matches_credit [OF len plus res])
  have total: "length (filter (\<lambda>(l, f). l = c \<and> f \<noteq> CHR ''+'') (zip g fb))
        + length (filter (\<lambda>(l, f). l = c \<and> f = CHR ''+'') (zip g fb)) = count_list g c" for c
    using credited_plus_absent [of g fb c] lfb g5 by simp
  have absent: "length (filter (\<lambda>(l, f). l = c \<and> f = CHR ''+'') (zip g fb))
        = count_list g c - min (count_list g c) (count_list a c)" for c
    using total [of c] credit [of c] unfolding conv by linarith
  have "get_pattern g a = Inr fb"
    using get_pattern_eq_get_matches [OF g5 a5 plus] res by simp
  then show ?thesis
    using res lfb exact other credit absent by (intro exI [of _ fb]) (simp add: min_def)
qed

theorem get_matches_marks_witness:
  "length ''llama'' = 5 \<and> length ''whale'' = 5
   \<and> CHR ''+'' \<notin> set ''llama'' \<and> CHR ''-'' \<notin> set ''llama''
   \<and> get_matches ''llama'' ''whale'' = Inr ''-+a++''
   \<and> get_pattern ''llama'' ''whale'' = Inr ''-+a++''
   \<and> count_list ''whale'' CHR ''l'' < count_list ''llama'' CHR ''l''
   \<and> length (filter (\<lambda>(l, f). l = CHR ''l'' \<and> (f = CHR ''l'' \<or> f = CHR ''-''))
               (zip ''llama'' ''-+a++'')) = count_list ''whale'' CHR ''l''"
  using get_matches_marks [of "''llama''" "''whale''"]
  by (simp add: get_matches_def Counter_def)

text \<open>
  C9. Scoring a word of five lowercase letters against itself returns the word itself:
  a string of length five with no \<open>-\<close> and no \<open>+\<close>.
\<close>

theorem get_matches_self:
  assumes "length w = 5" and "set w \<subseteq> set ''abcdefghijklmnopqrstuvwxyz''"
  shows "\<exists>fb. get_matches w w = Inr fb \<and> fb = w \<and> length fb = 5
           \<and> CHR ''-'' \<notin> set fb \<and> CHR ''+'' \<notin> set fb"
  using assms get_matches_same [of w] by auto

theorem get_matches_self_witness:
  "length ''lobby'' = 5 \<and> set ''lobby'' \<subseteq> set ''abcdefghijklmnopqrstuvwxyz''
   \<and> get_matches ''lobby'' ''lobby'' = Inr ''lobby''"
  using get_matches_self [of "''lobby''"] by simp

subsection \<open>Filtering by the observed feedback\<close>

lemma filter_candidates_filter:
  "\<forall>w \<in> set S. length g \<le> length w \<Longrightarrow>
   filter_candidates g p S = Inr (filter (\<lambda>w. get_matches g w = Inr p) S)"
proof (induction S)
  case Nil
  show ?case by simp
next
  case (Cons w S)
  then obtain fb where "get_matches g w = Inr fb"
    using get_matches_unfold [of g w] by auto
  then show ?case using Cons by auto
qed

text \<open>
  C3. When no candidate is shorter than the last guess (all words have five letters),
  the filtering step of \<open>get_guess\<close> returns exactly the candidates whose feedback for
  the guess equals the observed pattern, in their order: the new list is the set
  \<open>{w \<in> S. score(g, w) = p}\<close>, it is no longer than \<open>S\<close>, and every member of \<open>S\<close>
  that scores \<open>p\<close> is still in it.
\<close>

theorem filter_candidates_exact:
  assumes "\<forall>w \<in> set S. length g \<le> length w"
  shows "\<exists>S'. filter_candidates g p S = Inr S'
           \<and> S' = filter (\<lambda>w. get_matches g w = Inr p) S
           \<and> set S' = {w \<in> set S. get_matches g w = Inr p}
           \<and> length S' \<le> length S
           \<and> (\<forall>a \<in> set S. get_matches g a = Inr p \<longrightarrow> a \<in> set S')"
  using filter_candidates_filter [OF assms, of p] by auto

theorem filter_candidates_exact_witness:
  "list_all (\<lambda>w. length ''allot'' \<le> length w) [''allot'', ''below'', ''lobby'', ''mixed'']
   \<and> get_matches ''allot'' ''lobby'' = Inr ''+-+-+''
   \<and> filter_candidates ''allot'' ''+-+-+'' [''allot'', ''below'', ''lobby'', ''mixed'']
       = Inr [''lobby'']"
  using filter_candidates_exact
          [of "[''allot'', ''below'', ''lobby'', ''mixed'']" "''allot''" "''+-+-+''"]
  by (simp add: get_matches_def Counter_def)

subsection \<open>\<open>is_fully_disambiguating\<close>\<close>

lemma get_pattern_returns:
  "5 \<le> length guess \<Longrightarrow> 5 \<le> length w \<Longrightarrow> \<exists>p. get_pattern guess w = Inr p"
  by (auto simp: get_pattern_def split: prod.splits)

lemma disambiguating_loop_distinct:
  assumes "\<forall>w \<in> set ws. \<exists>p. get_pattern guess w = Inr p"
  shows "disambiguating_loop guess ws P =
           Inr (distinct (map (get_pattern guess) ws)
                \<and> (\<forall>w \<in> set ws. get_pattern guess w \<notin> Inr ` P))"
  using assms
proof (induction ws arbitrary: P)
  case Nil
  show ?case by simp
next
  case (Cons w ws)
  then obtain p where p: "get_pattern guess w = Inr p" by auto
  have rest: "\<forall>w \<in> set ws. \<exists>p. get_pattern guess w = Inr p" using Cons.prems by simp
  show ?case
  proof (cases "p \<in> P")
    case True
    then show ?thesis using p by auto
  next
    case False
    then show ?thesis
      using p Cons.IH [OF rest, of "insert p P"] by (auto simp: image_iff)
  qed
qed

text \<open>
  C7. For a guess and words of at least five letters, \<open>is_fully_disambiguating\<close>
  returns \<open>True\<close> exactly when the patterns of the guess against the words are
  pairwise distinct; an accepted guess therefore yields as many different patterns as
  there are words (three for a reference space of three words).
\<close>

theorem is_fully_disambiguating_iff:
  assumes "5 \<le> length guess" and "\<forall>w \<in> set ws. 5 \<le> length w"
  shows "\<exists>b. is_fully_disambiguating guess ws = Inr b
           \<and> (b \<longleftrightarrow> distinct (map (get_pattern guess) ws))
           \<and> (b \<longrightarrow> card (set (map (get_pattern guess) ws)) = length ws)"
proof -
  have "\<forall>w \<in> set ws. \<exists>p. get_pattern guess w = Inr p"
    using assms get_pattern_returns by blast
  then have "is_fully_disambiguating guess ws = Inr (distinct (map (get_pattern guess) ws))"
    unfolding is_fully_disambiguating_def
    using disambiguating_loop_distinct [of ws guess "{}"] by simp
  then show ?thesis
    using distinct_card [of "map (get_pattern guess) ws"] by auto
qed

theorem is_fully_disambiguating_iff_witness:
  "5 \<le> length ''spade'' \<and> list_all (\<lambda>w. 5 \<le> length w) [''spade'', ''space'', ''spark'']
   \<and> is_fully_disambiguating ''spade'' [''spade'', ''space'', ''spark''] = Inr True
   \<and> map (get_pattern ''spade'') [''spade'', ''space'', ''spark'']
       = [Inr ''spade'', Inr ''spa+e'', Inr ''spa++'']
   \<and> card (set (map (get_pattern ''spade'') [''spade'', ''space'', ''spark''])) = 3"
  using is_fully_disambiguating_iff [of "''spade''" "[''spade'', ''space'', ''spark'']"]
  by (auto simp: get_pattern_def decrement_def)

subsection \<open>The constraint-based filter\<close>

text \<open>
  C4. The constraint-based filter is not the pattern-equality filter. For the guess
  \<open>llama\<close> and the pattern \<open>-+a++\<close> (the feedback of \<open>llama\<close> against \<open>whale\<close>),
  \<open>filter_words\<close> keeps \<open>black\<close>, whose own pattern against \<open>llama\<close> is \<open>+la++\<close>: the
  check of a gray letter that is also required only bounds the number of its
  occurrences and never looks at the gray position itself.
\<close>

theorem filter_words_keeps_black:
  "filter_words ''llama'' ''-+a++'' [''whale'', ''black''] = Inr [''whale'', ''black'']
   \<and> get_pattern ''llama'' ''whale'' = Inr ''-+a++''
   \<and> get_pattern ''llama'' ''black'' = Inr ''+la++''
   \<and> filter (\<lambda>w. get_pattern ''llama'' w = Inr ''-+a++'') [''whale'', ''black''] = [''whale'']"
  by (simp add: filter_words_def guess_to_colors_def is_valid_def check_required_def
        bump_def set_add_def get_pattern_def decrement_def)

subsection \<open>A single remaining candidate\<close>

text \<open>
  C8. On a turn after the first, when filtering by the observed feedback leaves exactly
  one candidate, \<open>get_guess\<close> of guesser\_submitted.py returns that candidate, whatever
  the float arithmetic is: the entropy ranking has no part in the result. The same holds
  for \<open>_get_best_guess\<close> of vitto.py, whatever the strategies for more than two
  remaining words are.
\<close>

theorem single_candidate_returned:
  "(manual s \<noteq> ''manual'' \<and> tried s \<noteq> [] \<and> last_guess s = Some g
      \<and> filter_candidates g result (candidates s) = Inr [w]
    \<longrightarrow> get_guess ops s result =
          Inr (w, s\<lparr> candidates := [w], tried := tried s @ [w],
                     console_out := console_out s @ [w], last_guess := Some w \<rparr>))
   \<and> (v_tried v \<noteq> [] \<and> filter_words (last (v_tried v)) result (v_search_space v) = Inr [w]
      \<longrightarrow> get_best_guess beyond_two v result = Inr (Some w, v\<lparr> v_search_space := [w] \<rparr>))"
  by (simp add: get_guess_def narrow_def emit_def get_best_guess_def)

theorem single_candidate_returned_witness:
  "filter_candidates ''allot'' ''+-+-+'' [''allot'', ''below'', ''lobby'', ''mixed'']
     = Inr [''lobby'']
   \<and> get_guess real_ops
        \<lparr> word_list = [''allot'', ''below'', ''lobby'', ''mixed''], manual = ''auto'',
          tried = [''allot''], candidates = [''allot'', ''below'', ''lobby'', ''mixed''],
          last_guess = Some ''allot'', best_first_word = ''allot'',
          console_input = (\<lambda>prompt. ''''), console_out = [''allot''] \<rparr> ''+-+-+''
     = Inr (''lobby'',
        \<lparr> word_list = [''allot'', ''below'', ''lobby'', ''mixed''], manual = ''auto'',
          tried = [''allot'', ''lobby''], candidates = [''lobby''],
          last_guess = Some ''lobby'', best_first_word = ''allot'',
          console_input = (\<lambda>prompt. ''''), console_out = [''allot'', ''lobby''] \<rparr>)
   \<and> filter_words ''allot'' ''+-+-+'' [''allot'', ''below'', ''lobby'', ''mixed'']
     = Inr [''lobby'']
   \<and> get_best_guess (\<lambda>space. Inr None)
        \<lparr> v_tried = [''allot''], v_search_space = [''allot'', ''below'', ''lobby'', ''mixed''],
          v_best_first_guess = None \<rparr> ''+-+-+''
     = Inr (Some ''lobby'',
        \<lparr> v_tried = [''allot''], v_search_space = [''lobby''], v_best_first_guess = None \<rparr>)"
proof -
  have f: "filter_candidates ''allot'' ''+-+-+'' [''allot'', ''below'', ''lobby'', ''mixed'']
     = Inr [''lobby'']"
    by (simp add: get_matches_def Counter_def)
  have fw: "filter_words ''allot'' ''+-+-+'' [''allot'', ''below'', ''lobby'', ''mixed'']
     = Inr [''lobby'']"
    by (simp add: filter_words_def guess_to_colors_def is_valid_def check_required_def
          bump_def set_add_def)
  show ?thesis
    using f fw
      single_candidate_returned
        [where s = "\<lparr> word_list = [''allot'', ''below'', ''lobby'', ''mixed''], manual = ''auto'',
          tried = [''allot''], candidates = [''allot'', ''below'', ''lobby'', ''mixed''],
          last_guess = Some ''allot'', best_first_word = ''allot'',
          console_input = (\<lambda>prompt. ''''), console_out = [''allot''] \<rparr>"
          and g = "''allot''" and result = "''+-+-+''" and w = "''lobby''" and ops = real_ops
          and v = "\<lparr> v_tried = [''allot''],
                     v_search_space = [''allot'', ''below'', ''lobby'', ''mixed''],
                     v_best_first_guess = None \<rparr>"
          and beyond_two = "\<lambda>space. Inr None"]
    by simp
qed

subsection \<open>\<open>try_dummy_guess\<close>\<close>

lemma fold_bump_keys:
  "fst ` set (fold bump letters acc) = set letters \<union> fst ` set acc"
proof (induction letters arbitrary: acc)
  case Nil
  show ?case by simp
next
  case (Cons l letters)
  show ?case
    unfolding fold_simps Cons.IH by (auto simp: bump_def dom_update)
qed

lemma by_count_desc_keys: "set (map fst (by_count_desc items)) = fst ` set items"
  by (simp add: by_count_desc_def)

lemma index_plus_less:
  "CHR ''+'' \<in> set result \<Longrightarrow> index_plus result < length result"
  unfolding index_plus_def by (induction result) auto

lemma pad_or_cut_length:
  "length (if length d < 5 then d @ replicate (5 - length d) c
           else if length d > 5 then take 5 d else d) = 5"
  by auto

lemma pad_or_cut_set:
  "set (if length d < 5 then d @ replicate (5 - length d) c
        else if length d > 5 then take 5 d else d) \<subseteq> set d \<union> {c}"
  by (auto dest: in_set_takeD)

lemma try_dummy_guess_letters:
  assumes len: "length result = 5"
    and words: "\<forall>w \<in> set cands. length w = 5 \<and> set w \<subseteq> L"
    and a: "CHR ''a'' \<in> L"
  shows "\<exists>r s'. try_dummy_guess s cands result = Inr (r, s') \<and>
           (r = None \<or>
            (\<exists>d. r = Some d \<and> length d = 5 \<and> set d \<subseteq> L
                \<and> set d \<subseteq> (\<lambda>w. w ! index_plus result) ` set cands \<union> {CHR ''a''}))"
proof -
  let ?pos = "index_plus result"
  let ?letters = "map (\<lambda>word. word ! ?pos) cands"
  let ?dl = "map fst (by_count_desc (fold bump ?letters []))"
  let ?d = "if length ?dl < 5 then ?dl @ replicate (5 - length ?dl) CHR ''a''
            else if length ?dl > 5 then take 5 ?dl else ?dl"
  show ?thesis
  proof (cases "count_list result CHR ''+'' \<in> set DUMMY_PLUS_COUNTS
                \<and> count_list result CHR ''-'' = 0 \<and> length (g_tried s) < 5
                \<and> result \<notin> used_dummy s \<and> \<not> card (set ?letters) < 3")
    case False
    have "\<exists>s'. try_dummy_guess s cands result = Inr (None, s')
          \<or> try_dummy_guess s cands result = Inl IndexError"
      using False by (auto simp: try_dummy_guess_def Let_def DUMMY_GUESS_ONE_PER_CASE_def)
    moreover have "try_dummy_guess s cands result \<noteq> Inl IndexError"
    proof (cases "CHR ''+'' \<in> set result")
      case True
      then have "?pos < 5" using index_plus_less [of result] len by simp
      then have "\<not> (\<exists>word \<in> set cands. length word \<le> ?pos)" using words by auto
      then show ?thesis by (auto simp: try_dummy_guess_def Let_def)
    next
      case False
      then have "count_list result CHR ''+'' = 0" by simp
      then show ?thesis
        by (auto simp: try_dummy_guess_def Let_def DUMMY_PLUS_COUNTS_def)
    qed
    ultimately show ?thesis by auto
  next
    case True
    then have "count_list result CHR ''+'' \<noteq> 0" by (auto simp: DUMMY_PLUS_COUNTS_def)
    then have "CHR ''+'' \<in> set result" using count_list_0_iff [of result "CHR ''+''"] by auto
    then have pos: "?pos < 5" using index_plus_less [of result] len by simp
    then have noerr: "\<not> (\<exists>word \<in> set cands. length word \<le> ?pos)" using words by auto
    have res: "try_dummy_guess s cands result
                 = Inr (Some ?d, s\<lparr>used_dummy := insert result (used_dummy s)\<rparr>)"
      using True noerr
      by (simp add: try_dummy_guess_def Let_def DUMMY_GUESS_TOGGLE_def
            DUMMY_GUESS_ONE_PER_CASE_def)
    have dlen: "length ?d = 5" by (rule pad_or_cut_length)
    have "set ?dl = set ?letters"
      unfolding by_count_desc_keys fold_bump_keys by simp
    then have sub: "set ?d \<subseteq> (\<lambda>w. w ! ?pos) ` set cands \<union> {CHR ''a''}"
      using pad_or_cut_set [of ?dl "CHR ''a''"] by auto
    have "(\<lambda>w. w ! ?pos) ` set cands \<subseteq> L"
    proof
      fix c assume "c \<in> (\<lambda>w. w ! ?pos) ` set cands"
      then obtain w where w: "w \<in> set cands" "c = w ! ?pos" by auto
      then have "c \<in> set w" using pos words by simp
      then show "c \<in> L" using w words by blast
    qed
    then have "set ?d \<subseteq> L" using sub a by blast
    then show ?thesis using res dlen sub by blast
  qed
qed

text \<open>
  C10. For a feedback string of length five and candidates that are words of five
  lowercase letters, \<open>try_dummy_guess\<close> returns \<open>None\<close> or a string of exactly five
  lowercase letters, each of them a letter some candidate has at the position of the
  first \<open>+\<close>, or the padding letter \<open>a\<close>. The string need not be one of the candidates:
  for the seven words in \<open>-atch\<close> and the feedback \<open>+atch\<close> it is \<open>bchlm\<close>.
\<close>

theorem try_dummy_guess_result:
  "(length result = 5 \<and>
    (\<forall>w \<in> set cands. length w = 5 \<and> set w \<subseteq> set ''abcdefghijklmnopqrstuvwxyz'')
    \<longrightarrow> (\<exists>r s'. try_dummy_guess s cands result = Inr (r, s') \<and>
           (r = None \<or>
            (\<exists>d. r = Some d \<and> length d = 5 \<and> set d \<subseteq> set ''abcdefghijklmnopqrstuvwxyz''
                \<and> set d \<subseteq> (\<lambda>w. w ! index_plus result) ` set cands \<union> {CHR ''a''}))))
   \<and> (\<exists>d s'. try_dummy_guess \<lparr> g_tried = [''crane'', ''sloth''], used_dummy = {} \<rparr>
               [''batch'', ''catch'', ''hatch'', ''latch'', ''match'', ''patch'', ''watch'']
               ''+atch'' = Inr (Some d, s')
            \<and> d = ''bchlm''
            \<and> d \<notin> set [''batch'', ''catch'', ''hatch'', ''latch'', ''match'', ''patch'', ''watch''])"
proof (intro conjI impI)
  assume asm: "length result = 5 \<and>
    (\<forall>w \<in> set cands. length w = 5 \<and> set w \<subseteq> set ''abcdefghijklmnopqrstuvwxyz'')"
  have a: "CHR ''a'' \<in> set ''abcdefghijklmnopqrstuvwxyz''" by simp
  show "\<exists>r s'. try_dummy_guess s cands result = Inr (r, s') \<and>
           (r = None \<or>
            (\<exists>d. r = Some d \<and> length d = 5 \<and> set d \<subseteq> set ''abcdefghijklmnopqrstuvwxyz''
                \<and> set d \<subseteq> (\<lambda>w. w ! index_plus result) ` set cands \<union> {CHR ''a''}))"
    using asm by (intro try_dummy_guess_letters [OF _ _ a]) blast+
next
  show "\<exists>d s'. try_dummy_guess \<lparr> g_tried = [''crane'', ''sloth''], used_dummy = {} \<rparr>
               [''batch'', ''catch'', ''hatch'', ''latch'', ''match'', ''patch'', ''watch'']
               ''+atch'' = Inr (Some d, s')
            \<and> d = ''bchlm''
            \<and> d \<notin> set [''batch'', ''catch'', ''hatch'', ''latch'', ''match'', ''patch'', ''watch'']"
    by (simp add: try_dummy_guess_def Let_def DUMMY_GUESS_TOGGLE_def DUMMY_PLUS_COUNTS_def
          DUMMY_GUESS_ONE_PER_CASE_def index_plus_def bump_def by_count_desc_def)
qed

theorem try_dummy_guess_result_witness:
  "length ''+atch'' = 5
   \<and> list_all (\<lambda>w. length w = 5 \<and> set w \<subseteq> set ''abcdefghijklmnopqrstuvwxyz'')
         [''batch'', ''catch'', ''hatch'', ''latch'', ''match'', ''patch'', ''watch'']
   \<and> try_dummy_guess \<lparr> g_tried = [''crane'', ''sloth''], used_dummy = {} \<rparr>
        [''batch'', ''catch'', ''hatch'', ''latch'', ''match'', ''patch'', ''watch''] ''+atch''
      = Inr (Some ''bchlm'', \<lparr> g_tried = [''crane'', ''sloth''], used_dummy = {''+atch''} \<rparr>)"
  using try_dummy_guess_result
    [of "''+atch''" "[''batch'', ''catch'', ''hatch'', ''latch'', ''match'', ''patch'', ''watch'']"
        "\<lparr> g_tried = [''crane'', ''sloth''], used_dummy = {} \<rparr>"]
  by (simp add: try_dummy_guess_def Let_def DUMMY_GUESS_TOGGLE_def DUMMY_PLUS_COUNTS_def
        DUMMY_GUESS_ONE_PER_CASE_def index_plus_def bump_def by_count_desc_def)

subsection \<open>Entropy ranking\<close>

lemma distribution_loop_returns:
  "\<forall>a \<in> set cs. length g \<le> length a \<Longrightarrow> \<exists>d. distribution_loop g cs acc = Inr d"
proof (induction cs arbitrary: acc)
  case Nil
  show ?case by simp
next
  case (Cons a cs)
  then obtain fb where "get_matches g a = Inr fb"
    using get_matches_unfold [of g a] by auto
  then show ?case using Cons by simp
qed

lemma entropy_returns:
  assumes "\<forall>a \<in> set cs. length g \<le> length a"
  shows "\<exists>e. entropy ops g cs = Inr e"
proof -
  obtain d where "pattern_distribution g cs = Inr d"
    using distribution_loop_returns [OF assms, of "[]"] by (auto simp: pattern_distribution_def)
  then show ?thesis by (simp add: entropy_def Let_def)
qed

text \<open>
  The loop of \<open>max\<close>: it keeps the current best, or moves to the first later item whose
  key exceeds every key before it and is not exceeded by any key after it.
\<close>

lemma max_loop_first_max:
  assumes "\<forall>x \<in> set xs. key x = Inr (kf x)"
  shows "(max_loop key xs best bk = Inr best \<and> (\<forall>v \<in> set xs. kf v \<le> bk))
       \<or> (\<exists>pre w post. xs = pre @ w # post \<and> max_loop key xs best bk = Inr w \<and> bk < kf w
            \<and> (\<forall>v \<in> set pre. kf v < kf w) \<and> (\<forall>v \<in> set post. kf v \<le> kf w))"
  using assms
proof (induction xs arbitrary: best bk)
  case Nil
  show ?case by simp
next
  case (Cons x xs)
  have kx: "key x = Inr (kf x)" using Cons.prems by simp
  have rest: "\<forall>x \<in> set xs. key x = Inr (kf x)" using Cons.prems by simp
  show ?case
  proof (cases "bk < kf x")
    case True
    then have step: "max_loop key (x # xs) best bk = max_loop key xs x (kf x)"
      using kx by simp
    from Cons.IH [OF rest, of x "kf x"] show ?thesis
    proof (elim disjE exE conjE)
      assume "max_loop key xs x (kf x) = Inr x" "\<forall>v \<in> set xs. kf v \<le> kf x"
      then have "x # xs = [] @ x # xs \<and> max_loop key (x # xs) best bk = Inr x \<and> bk < kf x
            \<and> (\<forall>v \<in> set []. kf v < kf x) \<and> (\<forall>v \<in> set xs. kf v \<le> kf x)"
        using step True by simp
      then show ?thesis by blast
    next
      fix pre w post
      assume "xs = pre @ w # post" "max_loop key xs x (kf x) = Inr w" "kf x < kf w"
        "\<forall>v \<in> set pre. kf v < kf w" "\<forall>v \<in> set post. kf v \<le> kf w"
      then have "x # xs = (x # pre) @ w # post \<and> max_loop key (x # xs) best bk = Inr w
            \<and> bk < kf w \<and> (\<forall>v \<in> set (x # pre). kf v < kf w) \<and> (\<forall>v \<in> set post. kf v \<le> kf w)"
        using step True by auto
      then show ?thesis by blast
    qed
  next
    case False
    then have step: "max_loop key (x # xs) best bk = max_loop key xs best bk"
      using kx by simp
    from Cons.IH [OF rest, of best bk] show ?thesis
    proof (elim disjE exE conjE)
      assume "max_loop key xs best bk = Inr best" "\<forall>v \<in> set xs. kf v \<le> bk"
      then show ?thesis using step False by auto
    next
      fix pre w post
      assume "xs = pre @ w # post" "max_loop key xs best bk = Inr w" "bk < kf w"
        "\<forall>v \<in> set pre. kf v < kf w" "\<forall>v \<in> set post. kf v \<le> kf w"
      then have "x # xs = (x # pre) @ w # post \<and> max_loop key (x # xs) best bk = Inr w
            \<and> bk < kf w \<and> (\<forall>v \<in> set (x # pre). kf v < kf w) \<and> (\<forall>v \<in> set post. kf v \<le> kf w)"
        using step False by auto
      then show ?thesis by blast
    qed
  qed
qed

lemma py_max_first_max:
  assumes keys: "\<forall>x \<in> set xs. key x = Inr (kf x)" and ne: "xs \<noteq> []"
  shows "\<exists>pre w post. xs = pre @ w # post \<and> py_max key xs = Inr w
            \<and> (\<forall>v \<in> set pre. kf v < kf w) \<and> (\<forall>v \<in> set post. kf v \<le> kf w)"
proof -
  obtain x rest where xs: "xs = x # rest" using ne by (cases xs) auto
  have kx: "key x = Inr (kf x)" and krest: "\<forall>x \<in> set rest. key x = Inr (kf x)"
    using keys xs by simp_all
  have pm: "py_max key xs = max_loop key rest x (kf x)"
    using xs kx by (simp add: py_max_def)
  from max_loop_first_max [OF krest, of x "kf x"] show ?thesis
  proof (elim disjE exE conjE)
    assume "max_loop key rest x (kf x) = Inr x" "\<forall>v \<in> set rest. kf v \<le> kf x"
    then have "xs = [] @ x # rest \<and> py_max key xs = Inr x
            \<and> (\<forall>v \<in> set []. kf v < kf x) \<and> (\<forall>v \<in> set rest. kf v \<le> kf x)"
      using pm xs by simp
    then show ?thesis by blast
  next
    fix pre w post
    assume "rest = pre @ w # post" "max_loop key rest x (kf x) = Inr w" "kf x < kf w"
      "\<forall>v \<in> set pre. kf v < kf w" "\<forall>v \<in> set post. kf v \<le> kf w"
    then have "xs = (x # pre) @ w # post \<and> py_max key xs = Inr w
            \<and> (\<forall>v \<in> set (x # pre). kf v < kf w) \<and> (\<forall>v \<in> set post. kf v \<le> kf w)"
      using pm xs by auto
    then show ?thesis by blast
  qed
qed

lemma candidates_to_consider_subset:
  "set (candidates_to_consider tried_words cands) \<subseteq> set cands"
  by (auto simp: candidates_to_consider_def Let_def)

lemma candidates_to_consider_empty:
  "candidates_to_consider tried_words cands = [] \<longleftrightarrow> cands = []"
  by (auto simp: candidates_to_consider_def Let_def)

text \<open>
  What \<open>max\<close> selects by entropy: a candidate with every earlier candidate's entropy
  strictly smaller and no later candidate's entropy greater.
\<close>

lemma best_guess_selects:
  assumes "pool \<noteq> []" and "\<forall>g \<in> set pool. \<forall>a \<in> set ref. length g \<le> length a"
  shows "\<exists>pre w post e. pool = pre @ w # post \<and> best_guess ops pool ref = Inr w
           \<and> entropy ops w ref = Inr e
           \<and> (\<forall>v \<in> set pre. \<exists>ev. entropy ops v ref = Inr ev \<and> ev < e)
           \<and> (\<forall>v \<in> set post. \<exists>ev. entropy ops v ref = Inr ev \<and> ev \<le> e)"
proof -
  define kf where "kf = (\<lambda>g. projr (entropy ops g ref))"
  have keys: "\<forall>g \<in> set pool. entropy ops g ref = Inr (kf g)"
  proof
    fix g assume "g \<in> set pool"
    then have "\<forall>a \<in> set ref. length g \<le> length a" using assms(2) by simp
    then obtain e where "entropy ops g ref = Inr e"
      using entropy_returns [of ref g ops] by auto
    then show "entropy ops g ref = Inr (kf g)" by (simp add: kf_def)
  qed
  obtain pre w post where sel: "pool = pre @ w # post"
      "py_max (\<lambda>candidate. entropy ops candidate ref) pool = Inr w"
      "\<forall>v \<in> set pre. kf v < kf w" "\<forall>v \<in> set post. kf v \<le> kf w"
    using py_max_first_max [OF keys assms(1)] by auto
  have inpool: "set pre \<subseteq> set pool" "set post \<subseteq> set pool" "w \<in> set pool"
    unfolding sel(1) by auto
  have pre: "\<forall>v \<in> set pre. \<exists>ev. entropy ops v ref = Inr ev \<and> ev < kf w"
  proof
    fix v assume v: "v \<in> set pre"
    then have "v \<in> set pool" using inpool(1) by auto
    then have "entropy ops v ref = Inr (kf v)" using keys by simp
    moreover have "kf v < kf w" using sel(3) v by simp
    ultimately show "\<exists>ev. entropy ops v ref = Inr ev \<and> ev < kf w" by simp
  qed
  have post: "\<forall>v \<in> set post. \<exists>ev. entropy ops v ref = Inr ev \<and> ev \<le> kf w"
  proof
    fix v assume v: "v \<in> set post"
    then have "v \<in> set pool" using inpool(2) by auto
    then have "entropy ops v ref = Inr (kf v)" using keys by simp
    moreover have "kf v \<le> kf w" using sel(4) v by simp
    ultimately show "\<exists>ev. entropy ops v ref = Inr ev \<and> ev \<le> kf w" by simp
  qed
  have w: "entropy ops w ref = Inr (kf w)" using keys inpool(3) by simp
  have bg: "best_guess ops pool ref = Inr w" unfolding best_guess_def by (rule sel(2))
  have "pool = pre @ w # post \<and> best_guess ops pool ref = Inr w
           \<and> entropy ops w ref = Inr (kf w)
           \<and> (\<forall>v \<in> set pre. \<exists>ev. entropy ops v ref = Inr ev \<and> ev < kf w)
           \<and> (\<forall>v \<in> set post. \<exists>ev. entropy ops v ref = Inr ev \<and> ev \<le> kf w)"
    using sel(1) bg w pre post by (intro conjI)
  then show ?thesis by (intro exI)
qed

lemma get_guess_ranking:
  assumes "manual s \<noteq> ''manual''" and "tried s \<noteq> []"
    and "narrow s result = Inr cands" and "length cands \<noteq> 1"
  shows "map_sum id fst (get_guess ops s result)
         = best_guess ops (candidates_to_consider (tried s) (reset_if_empty s cands))
             (reset_if_empty s cands)"
  using assms by (simp add: get_guess_def Let_def emit_def split: sum.splits)

text \<open>
  C5. On a turn where \<open>get_guess\<close> ranks (a turn after the first, with other than one
  candidate left by the filter, and a non-empty reference space of five-letter words),
  the guess pool is drawn from the reference space. The word returned is a candidate of
  maximal entropy, so one of the tied candidates when several achieve the maximum, and it
  is a member of the reference space, as every candidate of the pool is: a tied member
  of the reference space always exists and is what the selection returns, and the
  fallback to the lexicographically smallest tied word has no instance.
\<close>

theorem get_guess_tie_break:
  assumes auto_mode: "manual s \<noteq> ''manual''" and later: "tried s \<noteq> []"
    and filtered: "narrow s result = Inr cands" and several: "length cands \<noteq> 1"
    and ref: "ref = reset_if_empty s cands"
    and pool: "pool = candidates_to_consider (tried s) ref"
    and ne: "ref \<noteq> []" and five: "\<forall>a \<in> set ref. length a = 5"
  shows "\<exists>w e. map_sum id fst (get_guess ops s result) = Inr w
           \<and> w \<in> set pool \<and> entropy ops w ref = Inr e
           \<and> (\<forall>v \<in> set pool. \<exists>ev. entropy ops v ref = Inr ev \<and> ev \<le> e)
           \<and> w \<in> set ref \<and> set pool \<subseteq> set ref"
proof -
  have sub: "set pool \<subseteq> set ref"
    unfolding pool by (rule candidates_to_consider_subset)
  have pne: "pool \<noteq> []"
    unfolding pool using ne by (simp add: candidates_to_consider_empty)
  have lens: "\<forall>g \<in> set pool. \<forall>a \<in> set ref. length g \<le> length a"
    using sub five by auto
  from best_guess_selects [OF pne lens, of ops]
  obtain pre w post e where sel: "pool = pre @ w # post \<and> best_guess ops pool ref = Inr w
           \<and> entropy ops w ref = Inr e
           \<and> (\<forall>v \<in> set pre. \<exists>ev. entropy ops v ref = Inr ev \<and> ev < e)
           \<and> (\<forall>v \<in> set post. \<exists>ev. entropy ops v ref = Inr ev \<and> ev \<le> e)"
    by (elim exE)
  note split = sel [THEN conjunct1]
  note bg = sel [THEN conjunct2, THEN conjunct1]
  note ew = sel [THEN conjunct2, THEN conjunct2, THEN conjunct1]
  note before = sel [THEN conjunct2, THEN conjunct2, THEN conjunct2, THEN conjunct1]
  note after = sel [THEN conjunct2, THEN conjunct2, THEN conjunct2, THEN conjunct2]
  have mem: "w \<in> set pool" by (subst split) simp
  have maximal: "\<forall>v \<in> set pool. \<exists>ev. entropy ops v ref = Inr ev \<and> ev \<le> e"
  proof
    fix v assume "v \<in> set pool"
    then have "v \<in> set (pre @ w # post)" using split by simp
    then have "v \<in> set pre \<or> v = w \<or> v \<in> set post" by auto
    then show "\<exists>ev. entropy ops v ref = Inr ev \<and> ev \<le> e"
    proof (elim disjE)
      assume "v \<in> set pre"
      then obtain ev where "entropy ops v ref = Inr ev" "ev < e" using before by auto
      then show ?thesis by auto
    next
      assume "v = w"
      then show ?thesis using ew by simp
    next
      assume "v \<in> set post"
      then show ?thesis using after by simp
    qed
  qed
  have ret: "map_sum id fst (get_guess ops s result) = Inr w"
    using get_guess_ranking [OF auto_mode later filtered several, of ops] bg
    unfolding pool ref by simp
  have inref: "w \<in> set ref" using mem sub by auto
  from ret mem ew maximal inref sub show ?thesis
    by (intro exI conjI)
qed

theorem get_guess_tie_break_witness:
  "''auto'' \<noteq> ''manual''
   \<and> narrow \<lparr> word_list = [''crane'', ''lobby'', ''fishy'', ''below''], manual = ''auto'',
          tried = [''crane''], candidates = [''crane'', ''lobby'', ''fishy'', ''below''],
          last_guess = Some ''crane'', best_first_word = ''crane'',
          console_input = id, console_out = [''crane''] \<rparr> ''+++++''
       = Inr [''lobby'', ''fishy'']
   \<and> list_all (\<lambda>a. length a = 5) [''lobby'', ''fishy'']
   \<and> entropy real_ops ''lobby'' [''lobby'', ''fishy'']
       = entropy real_ops ''fishy'' [''lobby'', ''fishy'']
   \<and> map_sum id fst (get_guess real_ops
        \<lparr> word_list = [''crane'', ''lobby'', ''fishy'', ''below''], manual = ''auto'',
          tried = [''crane''], candidates = [''crane'', ''lobby'', ''fishy'', ''below''],
          last_guess = Some ''crane'', best_first_word = ''crane'',
          console_input = id, console_out = [''crane''] \<rparr> ''+++++'')
       = Inr ''lobby''
   \<and> ''lobby'' \<in> set [''lobby'', ''fishy'']"
proof -
  have n: "narrow \<lparr> word_list = [''crane'', ''lobby'', ''fishy'', ''below''], manual = ''auto'',
          tried = [''crane''], candidates = [''crane'', ''lobby'', ''fishy'', ''below''],
          last_guess = Some ''crane'', best_first_word = ''crane'',
          console_input = id, console_out = [''crane''] \<rparr> ''+++++''
       = Inr [''lobby'', ''fishy'']"
    by (simp add: narrow_def get_matches_def Counter_def)
  have tie: "entropy real_ops ''lobby'' [''lobby'', ''fishy'']
       = entropy real_ops ''fishy'' [''lobby'', ''fishy'']"
    by (simp add: entropy_def pattern_distribution_def get_matches_def Counter_def bump_def
          real_ops_def Let_def)
  have bg: "best_guess real_ops [''lobby'', ''fishy''] [''lobby'', ''fishy''] = Inr ''lobby''"
    by (simp add: best_guess_def py_max_def entropy_def pattern_distribution_def
          get_matches_def Counter_def bump_def real_ops_def Let_def)
  show ?thesis
    using n tie bg
      get_guess_tie_break
        [where s = "\<lparr> word_list = [''crane'', ''lobby'', ''fishy'', ''below''], manual = ''auto'',
          tried = [''crane''], candidates = [''crane'', ''lobby'', ''fishy'', ''below''],
          last_guess = Some ''crane'', best_first_word = ''crane'',
          console_input = id, console_out = [''crane''] \<rparr>"
          and result = "''+++++''" and cands = "[''lobby'', ''fishy'']"
          and ref = "[''lobby'', ''fishy'']" and pool = "[''lobby'', ''fishy'']"
          and ops = real_ops]
    by (simp add: get_guess_def reset_if_empty_def candidates_to_consider_def emit_def Let_def)
qed

subsection \<open>An empty candidate list\<close>

lemma candidates_to_consider_untried:
  "candidates_to_consider tried_words (filter (\<lambda>w. w \<notin> set tried_words) ws)
     = filter (\<lambda>w. w \<notin> set tried_words) ws"
  by (simp add: candidates_to_consider_def Let_def)

text \<open>
  C2, as the code has it. On a turn after the first, when filtering by the observed
  feedback leaves no candidate, \<open>get_guess\<close> replaces the candidate list by the words
  of the word list not yet tried and ranks them as on any other turn: with five-letter
  words, and some word left untried, the call returns one of those words as its guess,
  raises nothing and prints nothing but the guess.
\<close>

theorem get_guess_resets:
  assumes auto_mode: "manual s \<noteq> ''manual''" and later: "tried s \<noteq> []"
    and lg: "last_guess s = Some g"
    and empty: "filter_candidates g result (candidates s) = Inr []"
    and untried: "filter (\<lambda>w. w \<notin> set (tried s)) (word_list s) \<noteq> []"
    and five: "\<forall>w \<in> set (word_list s). length w = 5"
  shows "\<exists>guess. get_guess ops s result =
           Inr (guess, s\<lparr> candidates := filter (\<lambda>w. w \<notin> set (tried s)) (word_list s),
                           tried := tried s @ [guess],
                           console_out := console_out s @ [guess],
                           last_guess := Some guess \<rparr>)
         \<and> guess \<in> set (word_list s) \<and> guess \<notin> set (tried s)"
proof -
  define F where "F = filter (\<lambda>w. w \<notin> set (tried s)) (word_list s)"
  have n: "narrow s result = Inr []" using lg empty by (simp add: narrow_def)
  have r: "reset_if_empty s [] = F" by (simp add: reset_if_empty_def F_def)
  have pool: "candidates_to_consider (tried s) F = F"
    unfolding F_def by (rule candidates_to_consider_untried)
  have ne: "F \<noteq> []" using untried by (simp add: F_def)
  have lens: "\<forall>g \<in> set F. \<forall>a \<in> set F. length g \<le> length a"
    using five by (auto simp: F_def)
  obtain pre w post where sel: "F = pre @ w # post" "best_guess ops F F = Inr w"
    using best_guess_selects [OF ne lens, of ops] by auto
  have "w \<in> set F" unfolding sel(1) by simp
  then have mem: "w \<in> set (word_list s)" "w \<notin> set (tried s)" by (auto simp: F_def)
  have "get_guess ops s result = Inr (emit (s\<lparr>candidates := F\<rparr>) w)"
    using auto_mode later n r pool sel(2) by (simp add: get_guess_def Let_def)
  then have "get_guess ops s result =
           Inr (w, s\<lparr> candidates := F, tried := tried s @ [w],
                       console_out := console_out s @ [w], last_guess := Some w \<rparr>)"
    by (simp add: emit_def)
  then show ?thesis using mem unfolding F_def by blast
qed

theorem get_guess_resets_witness:
  "''auto'' \<noteq> ''manual''
   \<and> get_matches ''allot'' ''total'' = Inr ''--+--''
   \<and> filter_candidates ''allot'' ''--+--'' [''allot'', ''below'', ''lobby'', ''mixed''] = Inr []
   \<and> list_all (\<lambda>w. length w = 5) [''allot'', ''below'', ''lobby'', ''mixed'']
   \<and> get_guess real_ops
        \<lparr> word_list = [''allot'', ''below'', ''lobby'', ''mixed''], manual = ''auto'',
          tried = [''allot''], candidates = [''allot'', ''below'', ''lobby'', ''mixed''],
          last_guess = Some ''allot'', best_first_word = ''allot'',
          console_input = id, console_out = [''allot''] \<rparr> ''--+--''
     = Inr (''below'',
        \<lparr> word_list = [''allot'', ''below'', ''lobby'', ''mixed''], manual = ''auto'',
          tried = [''allot'', ''below''], candidates = [''below'', ''lobby'', ''mixed''],
          last_guess = Some ''below'', best_first_word = ''allot'',
          console_input = id, console_out = [''allot'', ''below''] \<rparr>)"
proof -
  have f: "filter_candidates ''allot'' ''--+--'' [''allot'', ''below'', ''lobby'', ''mixed'']
             = Inr []"
    by (simp add: get_matches_def Counter_def)
  have m: "get_matches ''allot'' ''total'' = Inr ''--+--''"
    by (simp add: get_matches_def Counter_def)
  have bg: "best_guess real_ops [''below'', ''lobby'', ''mixed''] [''below'', ''lobby'', ''mixed'']
              = Inr ''below''"
    by (simp add: best_guess_def py_max_def entropy_def pattern_distribution_def
          get_matches_def Counter_def bump_def real_ops_def Let_def)
  show ?thesis
    using f m bg
      get_guess_resets
        [where s = "\<lparr> word_list = [''allot'', ''below'', ''lobby'', ''mixed''], manual = ''auto'',
          tried = [''allot''], candidates = [''allot'', ''below'', ''lobby'', ''mixed''],
          last_guess = Some ''allot'', best_first_word = ''allot'',
          console_input = id, console_out = [''allot''] \<rparr>"
          and g = "''allot''" and result = "''--+--''" and ops = real_ops]
    by (simp add: get_guess_def narrow_def reset_if_empty_def candidates_to_consider_def
          emit_def Let_def)
qed

text \<open>
  The claim as stated fails. The word list is \<open>allot, below, lobby, mixed\<close> and the
  feedback \<open>--+--\<close> for the guess \<open>allot\<close> (what the answer \<open>total\<close> produces) matches
  none of its words. \<open>get_guess\<close> returns the ordinary guess \<open>below\<close>, with the
  candidate list reset to the untried words and nothing printed but the guess.
\<close>

theorem get_guess_silent_reset_counterexample:
  "filter_candidates ''allot'' ''--+--'' [''allot'', ''below'', ''lobby'', ''mixed''] = Inr []
   \<and> get_guess real_ops
        \<lparr> word_list = [''allot'', ''below'', ''lobby'', ''mixed''], manual = ''auto'',
          tried = [''allot''], candidates = [''allot'', ''below'', ''lobby'', ''mixed''],
          last_guess = Some ''allot'', best_first_word = ''allot'',
          console_input = id, console_out = [''allot''] \<rparr> ''--+--''
     = Inr (''below'',
        \<lparr> word_list = [''allot'', ''below'', ''lobby'', ''mixed''], manual = ''auto'',
          tried = [''allot'', ''below''], candidates = [''below'', ''lobby'', ''mixed''],
          last_guess = Some ''below'', best_first_word = ''allot'',
          console_input = id, console_out = [''allot'', ''below''] \<rparr>)"
proof -
  have f: "filter_candidates ''allot'' ''--+--'' [''allot'', ''below'', ''lobby'', ''mixed'']
             = Inr []"
    by (simp add: get_matches_def Counter_def)
  have bg: "best_guess real_ops [''below'', ''lobby'', ''mixed''] [''below'', ''lobby'', ''mixed'']
              = Inr ''below''"
    by (simp add: best_guess_def py_max_def entropy_def pattern_distribution_def
          get_matches_def Counter_def bump_def real_ops_def Let_def)
  show ?thesis
    using f bg
    by (simp add: get_guess_def narrow_def reset_if_empty_def candidates_to_consider_def
          emit_def Let_def)
qed

subsection \<open>Determinism of the selection\<close>

text \<open>
  The loop of \<open>best_first_guess\<close>: it keeps the current best, or moves to the first later
  word whose entropy exceeds every entropy before it and is not exceeded by any after it.
\<close>

lemma best_entropy_loop_first_max:
  assumes "\<forall>x \<in> set xs. entropy ops x ref = Inr (kf x)"
  shows "(best_entropy_loop ops xs ref best be = Inr best \<and> (\<forall>v \<in> set xs. kf v \<le> be))
       \<or> (\<exists>pre w post. xs = pre @ w # post
            \<and> best_entropy_loop ops xs ref best be = Inr (Some w) \<and> be < kf w
            \<and> (\<forall>v \<in> set pre. kf v < kf w) \<and> (\<forall>v \<in> set post. kf v \<le> kf w))"
  using assms
proof (induction xs arbitrary: best be)
  case Nil
  show ?case by simp
next
  case (Cons x xs)
  have kx: "entropy ops x ref = Inr (kf x)" using Cons.prems by simp
  have rest: "\<forall>x \<in> set xs. entropy ops x ref = Inr (kf x)" using Cons.prems by simp
  show ?case
  proof (cases "be < kf x")
    case True
    then have step: "best_entropy_loop ops (x # xs) ref best be
                     = best_entropy_loop ops xs ref (Some x) (kf x)"
      using kx by simp
    from Cons.IH [OF rest, of "Some x" "kf x"] show ?thesis
    proof (elim disjE exE conjE)
      assume "best_entropy_loop ops xs ref (Some x) (kf x) = Inr (Some x)"
        "\<forall>v \<in> set xs. kf v \<le> kf x"
      then have "x # xs = [] @ x # xs
            \<and> best_entropy_loop ops (x # xs) ref best be = Inr (Some x) \<and> be < kf x
            \<and> (\<forall>v \<in> set []. kf v < kf x) \<and> (\<forall>v \<in> set xs. kf v \<le> kf x)"
        using step True by simp
      then show ?thesis by blast
    next
      fix pre w post
      assume "xs = pre @ w # post"
        "best_entropy_loop ops xs ref (Some x) (kf x) = Inr (Some w)" "kf x < kf w"
        "\<forall>v \<in> set pre. kf v < kf w" "\<forall>v \<in> set post. kf v \<le> kf w"
      then have "x # xs = (x # pre) @ w # post
            \<and> best_entropy_loop ops (x # xs) ref best be = Inr (Some w)
            \<and> be < kf w \<and> (\<forall>v \<in> set (x # pre). kf v < kf w) \<and> (\<forall>v \<in> set post. kf v \<le> kf w)"
        using step True by auto
      then show ?thesis by blast
    qed
  next
    case False
    then have step: "best_entropy_loop ops (x # xs) ref best be
                     = best_entropy_loop ops xs ref best be"
      using kx by simp
    from Cons.IH [OF rest, of best be] show ?thesis
    proof (elim disjE exE conjE)
      assume "best_entropy_loop ops xs ref best be = Inr best" "\<forall>v \<in> set xs. kf v \<le> be"
      then show ?thesis using step False by auto
    next
      fix pre w post
      assume "xs = pre @ w # post" "best_entropy_loop ops xs ref best be = Inr (Some w)"
        "be < kf w" "\<forall>v \<in> set pre. kf v < kf w" "\<forall>v \<in> set post. kf v \<le> kf w"
      then have "x # xs = (x # pre) @ w # post
            \<and> best_entropy_loop ops (x # xs) ref best be = Inr (Some w)
            \<and> be < kf w \<and> (\<forall>v \<in> set (x # pre). kf v < kf w) \<and> (\<forall>v \<in> set post. kf v \<le> kf w)"
        using step False by auto
      then show ?thesis by blast
    qed
  qed
qed

lemma potential_words_length:
  assumes "g \<in> set (potential_words ws)"
  shows "length g = 5"
proof -
  have "g \<in> set known_good \<or> g \<in> set (product_lists (top_letters ws))"
    using assms by (auto simp: potential_words_def dest: in_set_takeD)
  then show ?thesis
  proof
    assume "g \<in> set known_good"
    then show ?thesis by (auto simp: known_good_def)
  next
    assume "g \<in> set (product_lists (top_letters ws))"
    then have "length g = length (top_letters ws)" by (rule in_set_product_lists_length)
    then show ?thesis by (simp add: top_letters_def)
  qed
qed

text \<open>
  The opener: with five-letter words, and the potential openers visited in any order,
  \<open>best_first_guess\<close> returns the first opener of that order among those of maximal
  entropy (or \<open>None\<close>, when no entropy exceeds -1).
\<close>

lemma best_first_guess_first_in_order:
  assumes five: "\<forall>word \<in> set ws. length word = 5"
    and perm: "set (set_iter (potential_words ws)) = set (potential_words ws)"
  shows "(best_first_guess ops set_iter ws = Inr None
          \<and> (\<forall>v \<in> set (potential_words ws).
                \<exists>ev. entropy ops v ws = Inr ev \<and> ev \<le> f_of_int ops (- 1)))
       \<or> (\<exists>pre w post e. set_iter (potential_words ws) = pre @ w # post
            \<and> best_first_guess ops set_iter ws = Inr (Some w)
            \<and> entropy ops w ws = Inr e
            \<and> (\<forall>v \<in> set pre. \<exists>ev. entropy ops v ws = Inr ev \<and> ev < e)
            \<and> (\<forall>v \<in> set post. \<exists>ev. entropy ops v ws = Inr ev \<and> ev \<le> e))"
proof -
  define xs where "xs = set_iter (potential_words ws)"
  define kf where "kf = (\<lambda>g. projr (entropy ops g ws))"
  have keys: "\<forall>g \<in> set xs. entropy ops g ws = Inr (kf g)"
  proof
    fix g assume "g \<in> set xs"
    then have "g \<in> set (potential_words ws)" using perm by (simp add: xs_def)
    then have "length g = 5" by (rule potential_words_length)
    then have "\<forall>a \<in> set ws. length g \<le> length a" using five by simp
    then obtain e where "entropy ops g ws = Inr e"
      using entropy_returns [of ws g ops] by auto
    then show "entropy ops g ws = Inr (kf g)" by (simp add: kf_def)
  qed
  have noerr: "\<not> (\<exists>word \<in> set ws. 5 < length word)" using five by auto
  have bfg: "best_first_guess ops set_iter ws
             = best_entropy_loop ops xs ws None (f_of_int ops (- 1))"
    using noerr by (simp add: best_first_guess_def xs_def)
  from best_entropy_loop_first_max [OF keys, of None "f_of_int ops (- 1)"]
  show ?thesis
  proof (elim disjE exE conjE)
    assume none: "best_entropy_loop ops xs ws None (f_of_int ops (- 1)) = Inr None"
      and low: "\<forall>v \<in> set xs. kf v \<le> f_of_int ops (- 1)"
    have "\<forall>v \<in> set (potential_words ws).
            \<exists>ev. entropy ops v ws = Inr ev \<and> ev \<le> f_of_int ops (- 1)"
    proof
      fix v assume "v \<in> set (potential_words ws)"
      then have v: "v \<in> set xs" using perm by (simp add: xs_def)
      then have "entropy ops v ws = Inr (kf v)" using keys by simp
      moreover have "kf v \<le> f_of_int ops (- 1)" using low v by simp
      ultimately show "\<exists>ev. entropy ops v ws = Inr ev \<and> ev \<le> f_of_int ops (- 1)" by simp
    qed
    then show ?thesis using none bfg by simp
  next
    fix pre w post
    assume split: "xs = pre @ w # post"
      and ret: "best_entropy_loop ops xs ws None (f_of_int ops (- 1)) = Inr (Some w)"
      and before: "\<forall>v \<in> set pre. kf v < kf w" and after: "\<forall>v \<in> set post. kf v \<le> kf w"
    have inxs: "set pre \<subseteq> set xs" "set post \<subseteq> set xs" "w \<in> set xs"
      unfolding split by auto
    have b: "\<forall>v \<in> set pre. \<exists>ev. entropy ops v ws = Inr ev \<and> ev < kf w"
    proof
      fix v assume v: "v \<in> set pre"
      then have "v \<in> set xs" using inxs(1) by auto
      then have "entropy ops v ws = Inr (kf v)" using keys by simp
      moreover have "kf v < kf w" using before v by simp
      ultimately show "\<exists>ev. entropy ops v ws = Inr ev \<and> ev < kf w" by simp
    qed
    have a: "\<forall>v \<in> set post. \<exists>ev. entropy ops v ws = Inr ev \<and> ev \<le> kf w"
    proof
      fix v assume v: "v \<in> set post"
      then have "v \<in> set xs" using inxs(2) by auto
      then have "entropy ops v ws = Inr (kf v)" using keys by simp
      moreover have "kf v \<le> kf w" using after v by simp
      ultimately show "\<exists>ev. entropy ops v ws = Inr ev \<and> ev \<le> kf w" by simp
    qed
    have ew: "entropy ops w ws = Inr (kf w)" using keys inxs(3) by simp
    have s: "set_iter (potential_words ws) = pre @ w # post" using split by (simp add: xs_def)
    have r: "best_first_guess ops set_iter ws = Inr (Some w)" using ret bfg by simp
    have "\<exists>pre w post e. set_iter (potential_words ws) = pre @ w # post
            \<and> best_first_guess ops set_iter ws = Inr (Some w)
            \<and> entropy ops w ws = Inr e
            \<and> (\<forall>v \<in> set pre. \<exists>ev. entropy ops v ws = Inr ev \<and> ev < e)
            \<and> (\<forall>v \<in> set post. \<exists>ev. entropy ops v ws = Inr ev \<and> ev \<le> e)"
      using s r ew b a by (intro exI conjI)
    then show ?thesis by (rule disjI2)
  qed
qed

text \<open>
  C6, as the code has it. The ranking of \<open>get_guess\<close> is deterministic: two runs that
  reach it (a turn after the first, with other than one candidate left by the filter)
  on the same guess pool and the same reference space, the same words in the same
  order, return the same word, or raise the same exception, whatever else differs
  between the two objects. The opener is not: \<open>best_first_guess\<close> ranks a Python set of
  strings and, with five-letter words, returns the opener that comes first in the set's
  iteration order among those of maximal entropy (or \<open>None\<close>, when no entropy exceeds
  -1), so that two runs on the same word list agree only as far as that order does.
\<close>

theorem selection_depends_on_order:
  "(manual s1 \<noteq> ''manual'' \<and> manual s2 \<noteq> ''manual'' \<and> tried s1 \<noteq> [] \<and> tried s2 \<noteq> []
      \<and> narrow s1 r1 = Inr c1 \<and> narrow s2 r2 = Inr c2 \<and> length c1 \<noteq> 1 \<and> length c2 \<noteq> 1
      \<and> reset_if_empty s1 c1 = reset_if_empty s2 c2
      \<and> candidates_to_consider (tried s1) (reset_if_empty s1 c1)
          = candidates_to_consider (tried s2) (reset_if_empty s2 c2)
    \<longrightarrow> map_sum id fst (get_guess ops s1 r1) = map_sum id fst (get_guess ops s2 r2))
   \<and> ((\<forall>word \<in> set ws. length word = 5)
       \<and> set (set_iter (potential_words ws)) = set (potential_words ws)
    \<longrightarrow> (best_first_guess ops set_iter ws = Inr None
          \<and> (\<forall>v \<in> set (potential_words ws).
                \<exists>ev. entropy ops v ws = Inr ev \<and> ev \<le> f_of_int ops (- 1)))
       \<or> (\<exists>pre w post e. set_iter (potential_words ws) = pre @ w # post
            \<and> best_first_guess ops set_iter ws = Inr (Some w)
            \<and> entropy ops w ws = Inr e
            \<and> (\<forall>v \<in> set pre. \<exists>ev. entropy ops v ws = Inr ev \<and> ev < e)
            \<and> (\<forall>v \<in> set post. \<exists>ev. entropy ops v ws = Inr ev \<and> ev \<le> e)))"
proof (intro conjI impI)
  assume h: "manual s1 \<noteq> ''manual'' \<and> manual s2 \<noteq> ''manual'' \<and> tried s1 \<noteq> [] \<and> tried s2 \<noteq> []
      \<and> narrow s1 r1 = Inr c1 \<and> narrow s2 r2 = Inr c2 \<and> length c1 \<noteq> 1 \<and> length c2 \<noteq> 1
      \<and> reset_if_empty s1 c1 = reset_if_empty s2 c2
      \<and> candidates_to_consider (tried s1) (reset_if_empty s1 c1)
          = candidates_to_consider (tried s2) (reset_if_empty s2 c2)"
  then have one: "map_sum id fst (get_guess ops s1 r1)
         = best_guess ops (candidates_to_consider (tried s1) (reset_if_empty s1 c1))
             (reset_if_empty s1 c1)"
    using get_guess_ranking [of s1 r1 c1 ops] by simp
  from h have two: "map_sum id fst (get_guess ops s2 r2)
         = best_guess ops (candidates_to_consider (tried s2) (reset_if_empty s2 c2))
             (reset_if_empty s2 c2)"
    using get_guess_ranking [of s2 r2 c2 ops] by simp
  from h have ref: "reset_if_empty s1 c1 = reset_if_empty s2 c2"
    and pool: "candidates_to_consider (tried s1) (reset_if_empty s1 c1)
          = candidates_to_consider (tried s2) (reset_if_empty s2 c2)"
    by blast+
  show "map_sum id fst (get_guess ops s1 r1) = map_sum id fst (get_guess ops s2 r2)"
    unfolding one two by (subst pool, subst ref, rule refl)
next
  assume h: "(\<forall>word \<in> set ws. length word = 5)
       \<and> set (set_iter (potential_words ws)) = set (potential_words ws)"
  then have five: "\<forall>word \<in> set ws. length word = 5"
    and perm: "set (set_iter (potential_words ws)) = set (potential_words ws)"
    by simp_all
  show "(best_first_guess ops set_iter ws = Inr None
          \<and> (\<forall>v \<in> set (potential_words ws).
                \<exists>ev. entropy ops v ws = Inr ev \<and> ev \<le> f_of_int ops (- 1)))
       \<or> (\<exists>pre w post e. set_iter (potential_words ws) = pre @ w # post
            \<and> best_first_guess ops set_iter ws = Inr (Some w)
            \<and> entropy ops w ws = Inr e
            \<and> (\<forall>v \<in> set pre. \<exists>ev. entropy ops v ws = Inr ev \<and> ev < e)
            \<and> (\<forall>v \<in> set post. \<exists>ev. entropy ops v ws = Inr ev \<and> ev \<le> e))"
    using five perm by (rule best_first_guess_first_in_order [of ws set_iter ops])
qed

lemma log2_half: "log 2 (1 / 2) = - 1"
  by (simp add: log_divide)

lemma potential_words_lobby_fishy:
  "potential_words [''lobby'', ''fishy''] =
     known_good @
     [''lobby'', ''lobhy'', ''losby'', ''loshy'', ''libby'', ''libhy'', ''lisby'', ''lishy'',
      ''fobby'', ''fobhy'', ''fosby'', ''foshy'', ''fibby'', ''fibhy'', ''fisby'', ''fishy'']"
  by (simp add: potential_words_def known_good_def limit_def top_letters_def pos_counter_def
        bump_def by_count_desc_def upt_rec)

theorem selection_depends_on_order_witness:
  "''auto'' \<noteq> ''manual''
   \<and> narrow \<lparr> word_list = [''crane'', ''lobby'', ''fishy'', ''below''], manual = ''auto'',
          tried = [''crane''], candidates = [''crane'', ''lobby'', ''fishy'', ''below''],
          last_guess = Some ''crane'', best_first_word = ''crane'',
          console_input = id, console_out = [''crane''] \<rparr> ''+++++''
       = Inr [''lobby'', ''fishy'']
   \<and> narrow \<lparr> word_list = [''allot'', ''fishy'', ''lobby'', ''crane''], manual = ''auto'',
          tried = [''crane''], candidates = [''lobby'', ''allot'', ''fishy''],
          last_guess = Some ''crane'', best_first_word = ''allot'',
          console_input = id, console_out = [] \<rparr> ''+++++''
       = Inr [''lobby'', ''fishy'']
   \<and> map_sum id fst (get_guess real_ops
        \<lparr> word_list = [''crane'', ''lobby'', ''fishy'', ''below''], manual = ''auto'',
          tried = [''crane''], candidates = [''crane'', ''lobby'', ''fishy'', ''below''],
          last_guess = Some ''crane'', best_first_word = ''crane'',
          console_input = id, console_out = [''crane''] \<rparr> ''+++++'')
     = map_sum id fst (get_guess real_ops
        \<lparr> word_list = [''allot'', ''fishy'', ''lobby'', ''crane''], manual = ''auto'',
          tried = [''crane''], candidates = [''lobby'', ''allot'', ''fishy''],
          last_guess = Some ''crane'', best_first_word = ''allot'',
          console_input = id, console_out = [] \<rparr> ''+++++'')
   \<and> list_all (\<lambda>word. length word = 5) [''lobby'', ''fishy'']
   \<and> set (rev (potential_words [''lobby'', ''fishy''])) = set (potential_words [''lobby'', ''fishy''])
   \<and> best_first_guess real_ops rev [''lobby'', ''fishy''] = Inr (Some ''fishy'')"
proof -
  have n1: "narrow \<lparr> word_list = [''crane'', ''lobby'', ''fishy'', ''below''], manual = ''auto'',
          tried = [''crane''], candidates = [''crane'', ''lobby'', ''fishy'', ''below''],
          last_guess = Some ''crane'', best_first_word = ''crane'',
          console_input = id, console_out = [''crane''] \<rparr> ''+++++''
       = Inr [''lobby'', ''fishy'']"
    by (simp add: narrow_def get_matches_def Counter_def)
  have n2: "narrow \<lparr> word_list = [''allot'', ''fishy'', ''lobby'', ''crane''], manual = ''auto'',
          tried = [''crane''], candidates = [''lobby'', ''allot'', ''fishy''],
          last_guess = Some ''crane'', best_first_word = ''allot'',
          console_input = id, console_out = [] \<rparr> ''+++++''
       = Inr [''lobby'', ''fishy'']"
    by (simp add: narrow_def get_matches_def Counter_def)
  have opener: "best_first_guess real_ops rev [''lobby'', ''fishy''] = Inr (Some ''fishy'')"
    by (simp add: best_first_guess_def potential_words_lobby_fishy known_good_def
          entropy_def pattern_distribution_def get_matches_def Counter_def bump_def
          real_ops_def Let_def log2_half)
  show ?thesis
    using n1 n2 opener
      selection_depends_on_order
        [where ?s1.0 = "\<lparr> word_list = [''crane'', ''lobby'', ''fishy'', ''below''], manual = ''auto'',
          tried = [''crane''], candidates = [''crane'', ''lobby'', ''fishy'', ''below''],
          last_guess = Some ''crane'', best_first_word = ''crane'',
          console_input = id, console_out = [''crane''] \<rparr>"
          and ?s2.0 = "\<lparr> word_list = [''allot'', ''fishy'', ''lobby'', ''crane''], manual = ''auto'',
          tried = [''crane''], candidates = [''lobby'', ''allot'', ''fishy''],
          last_guess = Some ''crane'', best_first_word = ''allot'',
          console_input = id, console_out = [] \<rparr>"
          and ?r1.0 = "''+++++''" and ?r2.0 = "''+++++''"
          and ?c1.0 = "[''lobby'', ''fishy'']" and ?c2.0 = "[''lobby'', ''fishy'']"
          and ops = real_ops and set_iter = rev and ws = "[''lobby'', ''fishy'']"]
    by (simp add: reset_if_empty_def candidates_to_consider_def)
qed

text \<open>
  The claim as stated fails for the opener. On the word list \<open>lobby, fishy\<close> the openers
  \<open>saren\<close> and \<open>fishy\<close> both have the maximal entropy, one bit. A run that visits the
  set of potential openers in one order returns \<open>saren\<close>, a run that visits the same
  set in the reverse order returns \<open>fishy\<close>.
\<close>

theorem best_first_guess_order_counterexample:
  "best_first_guess real_ops id [''lobby'', ''fishy''] = Inr (Some ''saren'')
   \<and> best_first_guess real_ops rev [''lobby'', ''fishy''] = Inr (Some ''fishy'')
   \<and> set (id (potential_words [''lobby'', ''fishy'']))
       = set (rev (potential_words [''lobby'', ''fishy'']))
   \<and> entropy real_ops ''saren'' [''lobby'', ''fishy''] = Inr 1
   \<and> entropy real_ops ''fishy'' [''lobby'', ''fishy''] = Inr 1"
proof -
  have a: "best_first_guess real_ops id [''lobby'', ''fishy''] = Inr (Some ''saren'')"
    by (simp add: best_first_guess_def potential_words_lobby_fishy known_good_def
          entropy_def pattern_distribution_def get_matches_def Counter_def bump_def
          real_ops_def Let_def log2_half)
  have b: "best_first_guess real_ops rev [''lobby'', ''fishy''] = Inr (Some ''fishy'')"
    by (simp add: best_first_guess_def potential_words_lobby_fishy known_good_def
          entropy_def pattern_distribution_def get_matches_def Counter_def bump_def
          real_ops_def Let_def log2_half)
  have c: "entropy real_ops ''saren'' [''lobby'', ''fishy''] = Inr 1"
    by (simp add: entropy_def pattern_distribution_def get_matches_def Counter_def bump_def
          real_ops_def Let_def log2_half)
  have d: "entropy real_ops ''fishy'' [''lobby'', ''fishy''] = Inr 1"
    by (simp add: entropy_def pattern_distribution_def get_matches_def Counter_def bump_def
          real_ops_def Let_def log2_half)
  show ?thesis using a b c d by simp
qed

end
